theory Spec2Isabelle
  imports Main "HOL-Library.Word" "HOL-Library.Signed_Division"
begin

section \<open>The ring buffer of datastructure/ringbuffer.go\<close>

subsection \<open>Go integers, slices and panics\<close>

text \<open>
  Go's \<open>int\<close> is a two's complement machine integer; on the 64-bit targets it has 64
  bits. It is modelled as a 64-bit word read through \<open>sint\<close>: \<open>+\<close> and \<open>-\<close> wrap
  around, comparisons are the signed ones (\<open>\<le>s\<close>, \<open><s\<close>).
\<close>

type_synonym go_int = "64 word"

text \<open>
  Go's \<open>%\<close> truncates towards zero: the remainder has the sign of the dividend. A zero
  divisor panics; the callers below test for it before they use \<open>go_rem\<close>.
\<close>

definition go_rem :: "go_int \<Rightarrow> go_int \<Rightarrow> go_int" where
  "go_rem a b = word_of_int (sint a smod sint b)"

text \<open>
  The run-time failures the buffer's code can meet. The first three are panics, which a
  caller can recover from. \<open>OutOfMemory\<close> is the run time's fatal error, which ends the
  run.
\<close>

datatype panic = DivideByZero | IndexOutOfRange | MakeSliceLenOutOfRange | OutOfMemory

text \<open>An index expression \<open>s[i]\<close> panics unless \<open>0 \<le> i < len(s)\<close>.\<close>

definition in_range :: "'a list \<Rightarrow> go_int \<Rightarrow> bool" where
  "in_range s i = (0 \<le> sint i \<and> sint i < int (length s))"

definition slot :: "go_int \<Rightarrow> nat" where
  "slot i = nat (sint i)"

text \<open>
  The zero value of the element type \<open>T\<close> is the member \<open>default\<close> of the class
  \<open>default\<close>: \<open>()\<close> for \<open>struct{}\<close> (the type \<open>unit\<close>) and \<open>0\<close> for the integer
  types.
\<close>

instantiation word :: (len) default
begin

definition default_word :: "'a word" where
  "default_word = 0"

instance ..

end

subsection \<open>The buffer\<close>

text \<open>
  The mutex \<open>mu\<close> is modelled by the log of the calls made on it, oldest first.
\<close>

datatype mu_event = Lock | Unlock

record 'a RingBuffer =
  data :: "'a list"
  capacity :: go_int
  start :: go_int
  size :: go_int
  mu :: "mu_event list"

definition mu_Lock :: "'a RingBuffer \<Rightarrow> 'a RingBuffer" where
  "mu_Lock b = b\<lparr>mu := mu b @ [Lock]\<rparr>"

definition mu_Unlock :: "'a RingBuffer \<Rightarrow> 'a RingBuffer" where
  "mu_Unlock b = b\<lparr>mu := mu b @ [Unlock]\<rparr>"

text \<open>
  \<open>make([]T, n)\<close> is the run time's \<open>makeslice\<close>. It panics with
  \<open>makeslice: len out of range\<close> when \<open>n\<close> is negative or \<open>n\<close> elements of \<open>T\<close> take more
  than the run time's \<open>maxAlloc\<close> bytes; otherwise it allocates, and the run ends with
  \<open>out of memory\<close> when the heap cannot give that much; otherwise it returns \<open>n\<close> slots
  holding the zero value. The two limits are not in the repository. They depend on the
  size of \<open>T\<close> and on the run, so they are parameters: \<open>max_len\<close> is the largest length
  within \<open>maxAlloc\<close> and \<open>heap_len\<close> the largest length the heap can give. A length of 0
  is within both.
\<close>

record go_runtime =
  max_len :: nat
  heap_len :: nat

definition make_slice :: "go_runtime \<Rightarrow> go_int \<Rightarrow> panic + ('a::default) list" where
  "make_slice rt n =
     (if n <s 0 \<or> int (max_len rt) < sint n then Inl MakeSliceLenOutOfRange
      else if int (heap_len rt) < sint n then Inl OutOfMemory
      else Inr (replicate (slot n) default))"

text \<open>
  Two runs. With 8-byte elements (Go's \<open>int\<close>) on a 64-bit target \<open>maxAlloc\<close> is \<open>2^48\<close>
  bytes, so \<open>max_len\<close> is \<open>2^45\<close>; the heap of \<open>int_elems\<close> can give \<open>2^30\<close> of them.
  Elements of size zero (\<open>struct{}\<close>) take no memory: every length up to the largest
  \<open>int\<close> is given.
\<close>

definition int_elems :: go_runtime where
  "int_elems = \<lparr>max_len = 2 ^ 45, heap_len = 2 ^ 30\<rparr>"

definition zero_size_elems :: go_runtime where
  "zero_size_elems = \<lparr>max_len = 2 ^ 63 - 1, heap_len = 2 ^ 63 - 1\<rparr>"

definition NewRingBuffer :: "go_runtime \<Rightarrow> go_int \<Rightarrow> panic + ('a::default) RingBuffer" where
  "NewRingBuffer rt cap =
     (case make_slice rt cap of
        Inl p \<Rightarrow> Inl p
      | Inr d \<Rightarrow> Inr \<lparr>data = d, capacity = cap, start = 0, size = 0, mu = []\<rparr>)"

text \<open>
  Every method returns the buffer it leaves behind and either its results or the panic
  that ended it. The deferred \<open>Unlock\<close> runs on every way out, a panic included, and what
  the method had stored before the panic stays stored.
\<close>

definition Add :: "'a RingBuffer \<Rightarrow> 'a \<Rightarrow> 'a RingBuffer \<times> (panic + unit)" where
  "Add b0 item =
     (let b = mu_Lock b0 in
      if capacity b = 0 then (mu_Unlock b, Inl DivideByZero)
      else
        let idx = go_rem (start b + size b) (capacity b) in
        if \<not> in_range (data b) idx then (mu_Unlock b, Inl IndexOutOfRange)
        else
          let b = b\<lparr>data := (data b)[slot idx := item]\<rparr>;
              b = (if size b <s capacity b then b\<lparr>size := size b + 1\<rparr>
                   else b\<lparr>start := go_rem (start b + 1) (capacity b)\<rparr>)
          in (mu_Unlock b, Inr ()))"

definition Pop :: "('a::default) RingBuffer \<Rightarrow> 'a RingBuffer \<times> (panic + 'a \<times> 'a \<times> bool)" where
  "Pop b0 =
     (let b = mu_Lock b0; zero = default in
      if size b = 0 then (mu_Unlock b, Inr (zero, zero, False))
      else if \<not> in_range (data b) (start b) then (mu_Unlock b, Inl IndexOutOfRange)
      else
        let result = data b ! slot (start b);
            zeroValue = default;
            b = b\<lparr>data := (data b)[slot (start b) := zeroValue]\<rparr>
        in
          if capacity b = 0 then (mu_Unlock b, Inl DivideByZero)
          else
            let b = b\<lparr>start := go_rem (start b + 1) (capacity b)\<rparr>;
                b = b\<lparr>size := size b - 1\<rparr>
            in (mu_Unlock b, Inr (zero, result, True)))"

definition Readd :: "'a RingBuffer \<Rightarrow> 'a \<Rightarrow> 'a RingBuffer \<times> (panic + bool)" where
  "Readd b0 item =
     (let b = mu_Lock b0 in
      if size b = capacity b then (mu_Unlock b, Inr False)
      else if capacity b = 0 then (mu_Unlock b, Inl DivideByZero)
      else
        let b = b\<lparr>start := go_rem (start b - 1 + capacity b) (capacity b)\<rparr> in
        if \<not> in_range (data b) (start b) then (mu_Unlock b, Inl IndexOutOfRange)
        else
          let b = b\<lparr>data := (data b)[slot (start b) := item]\<rparr>;
              b = b\<lparr>size := size b + 1\<rparr>
          in (mu_Unlock b, Inr True))"

definition Len :: "'a RingBuffer \<Rightarrow> 'a RingBuffer \<times> go_int" where
  "Len b = (b, size b)"

subsection \<open>Sequences of calls\<close>

text \<open>
  A caller's sequence of calls. A caller that recovers from a panic goes on with the buffer
  the panicking call left behind, so \<open>run\<close> goes on with it too.
\<close>

datatype 'a op = OpAdd 'a | OpPop | OpReadd 'a

fun step :: "('a::default) RingBuffer \<Rightarrow> 'a op \<Rightarrow> 'a RingBuffer" where
  "step b (OpAdd item) = fst (Add b item)"
| "step b OpPop = fst (Pop b)"
| "step b (OpReadd item) = fst (Readd b item)"

definition run :: "('a::default) RingBuffer \<Rightarrow> 'a op list \<Rightarrow> 'a RingBuffer" where
  "run b ops = foldl step b ops"

text \<open>The bound on \<open>size\<close> that \<open>Len\<close> documents.\<close>

definition size_ok :: "'a RingBuffer \<Rightarrow> bool" where
  "size_ok b \<longleftrightarrow> 0 \<le>s size b \<and> size b \<le>s capacity b"

text \<open>
  \<open>Add_all\<close> adds the items in order and \<open>Pop_n\<close> pops \<open>n\<close> times, keeping each
  result with its flag; both stop at the first panic. \<open>drain\<close> pops until \<open>Pop\<close>
  reports an empty buffer. Each successful \<open>Pop\<close> lowers \<open>size\<close> by one, so the loop
  ends.
\<close>

fun Add_all :: "'a RingBuffer \<Rightarrow> 'a list \<Rightarrow> 'a RingBuffer \<times> (panic + unit)" where
  "Add_all b [] = (b, Inr ())"
| "Add_all b (item # items) =
     (case Add b item of
        (b', Inl p) \<Rightarrow> (b', Inl p)
      | (b', Inr _) \<Rightarrow> Add_all b' items)"

fun Pop_n :: "('a::default) RingBuffer \<Rightarrow> nat \<Rightarrow> 'a RingBuffer \<times> (panic + ('a \<times> bool) list)" where
  "Pop_n b 0 = (b, Inr [])"
| "Pop_n b (Suc n) =
     (case Pop b of
        (b', Inl p) \<Rightarrow> (b', Inl p)
      | (b', Inr (zero, result, ok)) \<Rightarrow>
          (case Pop_n b' n of
             (b'', Inl p) \<Rightarrow> (b'', Inl p)
           | (b'', Inr rs) \<Rightarrow> (b'', Inr ((result, ok) # rs))))"

function drain :: "('a::default) RingBuffer \<Rightarrow> 'a RingBuffer \<times> (panic + 'a list)" where
  "drain b =
     (case Pop b of
        (b', Inl p) \<Rightarrow> (b', Inl p)
      | (b', Inr (zero, result, ok)) \<Rightarrow>
          if ok then
            (case drain b' of
               (b'', Inl p) \<Rightarrow> (b'', Inl p)
             | (b'', Inr rs) \<Rightarrow> (b'', Inr (result # rs)))
          else (b', Inr []))"
  by pat_completeness auto
termination
  apply (relation "measure (\<lambda>b. unat (size b))")
   apply simp
  apply (auto simp: Pop_def Let_def mu_Lock_def mu_Unlock_def unat_minus_one unat_gt_0 split: if_splits)
  done

declare drain.simps [simp del]

subsection \<open>The queue a buffer holds\<close>

text \<open>
  \<open>ring xs c s n\<close> reads \<open>n\<close> slots of \<open>xs\<close> from index \<open>s\<close> on, wrapping at \<open>c\<close>.
  The contents of a buffer are its live slots, oldest first. A buffer is well formed
  when its fields are as the data model has them: a positive capacity, that many slots,
  \<open>0 \<le> start < capacity\<close> and \<open>0 \<le> size \<le> capacity\<close>.
\<close>

definition ring :: "'a list \<Rightarrow> nat \<Rightarrow> nat \<Rightarrow> nat \<Rightarrow> 'a list" where
  "ring xs c s n = map (\<lambda>i. xs ! ((s + i) mod c)) [0..<n]"

definition well_formed :: "'a RingBuffer \<Rightarrow> bool" where
  "well_formed b \<longleftrightarrow> 0 <s capacity b \<and> length (data b) = slot (capacity b) \<and>
     0 \<le>s start b \<and> start b <s capacity b \<and> 0 \<le>s size b \<and> size b \<le>s capacity b"

definition contents :: "'a RingBuffer \<Rightarrow> 'a list" where
  "contents b = ring (data b) (slot (capacity b)) (slot (start b)) (slot (size b))"

text \<open>The last \<open>n\<close> elements of a list, or all of it when it is shorter.\<close>

definition last_n :: "nat \<Rightarrow> 'a list \<Rightarrow> 'a list" where
  "last_n n xs = drop (length xs - n) xs"

text \<open>The indices of the live slots, oldest first.\<close>

definition live_slots :: "'a RingBuffer \<Rightarrow> nat list" where
  "live_slots b = map (\<lambda>i. (slot (start b) + i) mod slot (capacity b)) [0..<slot (size b)]"

section \<open>Properties\<close>

subsection \<open>Reading a slice as a ring\<close>

lemma ring_index_le:
  fixes c s i j :: nat
  assumes "i \<le> j" "j < c" "(s + i) mod c = (s + j) mod c"
  shows "i = j"
proof (rule ccontr)
  assume "i \<noteq> j"
  then have pos: "0 < j - i" and lt: "j - i < c" using assms by simp_all
  have "(s + j) mod c = (s + i) mod c" using assms by simp
  then have "c dvd (s + j) - (s + i)"
    using mod_eq_dvd_iff_nat[of "s + i" "s + j" c] assms by simp
  then have "c dvd j - i" by simp
  then show False using pos lt by (simp add: nat_dvd_not_less)
qed

lemma ring_index_inj:
  fixes c s i j :: nat
  assumes "i < c" "j < c" "(s + i) mod c = (s + j) mod c"
  shows "i = j"
proof (cases "i \<le> j")
  case True
  then show ?thesis using assms ring_index_le by blast
next
  case False
  then have "j \<le> i" by simp
  then show ?thesis using assms ring_index_le[of j i c s] by simp
qed

lemma length_ring: "length (ring xs c s n) = n"
  by (simp add: ring_def)

lemma ring_nth: "i < n \<Longrightarrow> ring xs c s n ! i = xs ! ((s + i) mod c)"
  by (simp add: ring_def)

lemma ring_snoc:
  assumes "length xs = c" "n < c"
  shows "ring (xs[(s + n) mod c := x]) c s (Suc n) = ring xs c s n @ [x]"
proof (rule nth_equalityI)
  show "length (ring (xs[(s + n) mod c := x]) c s (Suc n)) = length (ring xs c s n @ [x])"
    by (simp add: length_ring)
next
  fix i assume "i < length (ring (xs[(s + n) mod c := x]) c s (Suc n))"
  then have i: "i < Suc n" by (simp add: length_ring)
  show "ring (xs[(s + n) mod c := x]) c s (Suc n) ! i = (ring xs c s n @ [x]) ! i"
  proof (cases "i = n")
    case True
    then show ?thesis using assms by (simp add: ring_nth length_ring nth_append)
  next
    case False
    then have "i < n" using i by simp
    moreover then have "(s + i) mod c \<noteq> (s + n) mod c"
      using ring_index_inj[of i c n s] assms by auto
    ultimately show ?thesis by (simp add: ring_nth length_ring nth_append)
  qed
qed

lemma ring_tl:
  assumes "length xs = c" "s < c" "0 < n" "n \<le> c"
  shows "ring (xs[s := d]) c ((s + 1) mod c) (n - 1) = tl (ring xs c s n)"
proof (rule nth_equalityI)
  show "length (ring (xs[s := d]) c ((s + 1) mod c) (n - 1)) = length (tl (ring xs c s n))"
    by (simp add: length_ring)
next
  fix i assume "i < length (ring (xs[s := d]) c ((s + 1) mod c) (n - 1))"
  then have i: "i < n - 1" by (simp add: length_ring)
  have e: "((s + 1) mod c + i) mod c = (s + Suc i) mod c"
    by (simp add: mod_add_left_eq)
  have lt: "Suc i < c" using i assms by linarith
  have "(s + Suc i) mod c \<noteq> (s + 0) mod c"
    using ring_index_inj[of "Suc i" c 0 s] lt by auto
  then have ne: "(s + Suc i) mod c \<noteq> s" using assms by simp
  have "ring (xs[s := d]) c ((s + 1) mod c) (n - 1) ! i = xs[s := d] ! (((s + 1) mod c + i) mod c)"
    using i by (rule ring_nth)
  also have "\<dots> = xs[s := d] ! ((s + Suc i) mod c)" by (simp only: e)
  also have "\<dots> = xs ! ((s + Suc i) mod c)" using ne by (simp only: nth_list_update_neq not_sym)
  also have "\<dots> = ring xs c s n ! Suc i" using i by (simp only: ring_nth less_diff_conv Suc_eq_plus1)
  also have "\<dots> = tl (ring xs c s n) ! i" using i by (simp add: nth_tl length_ring)
  finally show "ring (xs[s := d]) c ((s + 1) mod c) (n - 1) ! i = tl (ring xs c s n) ! i" .
qed

lemma ring_hd:
  assumes "s < c" "0 < n"
  shows "hd (ring xs c s n) = xs ! s"
proof -
  have "ring xs c s n \<noteq> []" using assms length_ring[of xs c s n] by auto
  then have "hd (ring xs c s n) = ring xs c s n ! 0" by (rule hd_conv_nth)
  then show ?thesis using assms by (simp add: ring_nth)
qed

lemma ring_cons:
  assumes "length xs = c" "s < c" "n < c"
  shows "ring (xs[(s + c - 1) mod c := x]) c ((s + c - 1) mod c) (Suc n) = x # ring xs c s n"
proof (rule nth_equalityI)
  show "length (ring (xs[(s + c - 1) mod c := x]) c ((s + c - 1) mod c) (Suc n)) = length (x # ring xs c s n)"
    by (simp add: length_ring)
next
  fix i assume "i < length (ring (xs[(s + c - 1) mod c := x]) c ((s + c - 1) mod c) (Suc n))"
  then have i: "i < Suc n" by (simp add: length_ring)
  let ?k = "(s + c - 1) mod c"
  have k: "?k < c" using assms by simp
  show "ring (xs[?k := x]) c ?k (Suc n) ! i = (x # ring xs c s n) ! i"
  proof (cases i)
    case 0
    then show ?thesis using k assms by (simp add: ring_nth)
  next
    case (Suc j)
    then have j: "j < n" using i by simp
    have "(?k + Suc j) mod c = (s + c - 1 + Suc j) mod c"
      by (rule mod_add_left_eq)
    also have "\<dots> = (s + j + c) mod c" using assms by (simp add: algebra_simps)
    also have "\<dots> = (s + j) mod c" by simp
    finally have e: "(?k + Suc j) mod c = (s + j) mod c" .
    have "?k = (s + (c - 1)) mod c" using assms by simp
    then have "(s + j) mod c \<noteq> ?k"
      using ring_index_inj[of j c "c - 1" s] j assms by auto
    then show ?thesis using Suc j e by (simp add: ring_nth)
  qed
qed

lemma ring_rotate:
  assumes "length xs = c" "s < c"
  shows "ring (xs[s := x]) c ((s + 1) mod c) c = tl (ring xs c s c) @ [x]"
proof (rule nth_equalityI)
  show "length (ring (xs[s := x]) c ((s + 1) mod c) c) = length (tl (ring xs c s c) @ [x])"
    using assms by (simp add: length_ring)
next
  fix i assume "i < length (ring (xs[s := x]) c ((s + 1) mod c) c)"
  then have i: "i < c" by (simp add: length_ring)
  have e: "((s + 1) mod c + i) mod c = (s + Suc i) mod c"
    by (simp add: mod_add_left_eq)
  show "ring (xs[s := x]) c ((s + 1) mod c) c ! i = (tl (ring xs c s c) @ [x]) ! i"
  proof (cases "i = c - 1")
    case True
    then have "(s + Suc i) mod c = s" using assms i by simp
    then have "ring (xs[s := x]) c ((s + 1) mod c) c ! i = x"
      using i assms by (simp only: ring_nth e nth_list_update_eq)
    moreover have "(tl (ring xs c s c) @ [x]) ! i = x"
      using True by (simp add: nth_append length_ring)
    ultimately show ?thesis by simp
  next
    case False
    then have lt: "Suc i < c" using i by simp
    have "(s + Suc i) mod c \<noteq> (s + 0) mod c"
      using ring_index_inj[of "Suc i" c 0 s] lt by auto
    then have ne: "(s + Suc i) mod c \<noteq> s" using assms by simp
    have "ring (xs[s := x]) c ((s + 1) mod c) c ! i = xs[s := x] ! (((s + 1) mod c + i) mod c)"
      using i by (rule ring_nth)
    also have "\<dots> = xs[s := x] ! ((s + Suc i) mod c)" by (simp only: e)
    also have "\<dots> = xs ! ((s + Suc i) mod c)" using ne by (simp only: nth_list_update_neq not_sym)
    also have "\<dots> = ring xs c s c ! Suc i" using lt by (simp only: ring_nth)
    also have "\<dots> = tl (ring xs c s c) ! i" using lt by (simp add: nth_tl length_ring)
    also have "\<dots> = (tl (ring xs c s c) @ [x]) ! i"
    proof -
      have "i < length (tl (ring xs c s c))" using lt by (simp add: length_ring)
      then show ?thesis by (simp only: nth_append_left)
    qed
    finally show ?thesis .
  qed
qed

subsection \<open>Signed arithmetic without overflow\<close>

lemma sint_bounds64: "- (2^63) \<le> sint (x::go_int)" "sint (x::go_int) < 2^63"
  using sint_ge[of x] sint_lt[of x] by simp_all

lemma sint_add_no_wrap:
  fixes a b :: go_int
  assumes "- (2^63) \<le> sint a + sint b" "sint a + sint b < 2^63"
  shows "sint (a + b) = sint a + sint b"
  using assms by (simp add: sint_word_ariths signed_take_bit_int_eq_self)

lemma sint_sub_no_wrap:
  fixes a b :: go_int
  assumes "- (2^63) \<le> sint a - sint b" "sint a - sint b < 2^63"
  shows "sint (a - b) = sint a - sint b"
  using assms by (simp add: sint_word_ariths signed_take_bit_int_eq_self)

lemma sint_word_of_int64:
  assumes "- (2^63) \<le> k" "k < 2^63"
  shows "sint (word_of_int k :: go_int) = k"
  using assms by (simp add: sint_sbintrunc' signed_take_bit_int_eq_self)

lemma sint_go_rem:
  assumes "0 \<le> sint a" "0 < sint b"
  shows "sint (go_rem a b) = sint a mod sint b"
proof -
  have e: "sint a smod sint b = sint a mod sint b"
    using assms by (simp add: smod_int_alt_def sgn_if)
  have "0 \<le> sint a mod sint b" "sint a mod sint b < sint b"
    using assms by simp_all
  then have "- (2^63) \<le> sint a mod sint b" "sint a mod sint b < 2^63"
    using sint_bounds64[of b] by linarith+
  then show ?thesis
    unfolding go_rem_def e by (rule sint_word_of_int64)
qed

lemma sint_succ:
  fixes x y :: go_int
  assumes "sint x < sint y"
  shows "sint (x + 1) = sint x + 1"
proof -
  have "sint x + sint (1::go_int) < 2^63" "- (2^63) \<le> sint x + sint (1::go_int)"
    using assms sint_bounds64[of y] sint_bounds64[of x] by simp_all
  then show ?thesis using sint_add_no_wrap[of x 1] by simp
qed

lemma sint_pred:
  fixes x :: go_int
  assumes "0 \<le> sint x"
  shows "sint (x - 1) = sint x - 1"
proof -
  have "sint x - sint (1::go_int) < 2^63" "- (2^63) \<le> sint x - sint (1::go_int)"
    using assms sint_bounds64[of x] by simp_all
  then show ?thesis using sint_sub_no_wrap[of x 1] by simp
qed

lemma sint_zero_iff: "(x::go_int) = 0 \<longleftrightarrow> sint x = 0"
  by (metis sint_0 signed_word_eqI)

lemma well_formed_nat:
  assumes "well_formed b"
  shows "sint (capacity b) = int (slot (capacity b))" "sint (start b) = int (slot (start b))"
    "sint (size b) = int (slot (size b))" "0 < slot (capacity b)"
    "slot (start b) < slot (capacity b)" "slot (size b) \<le> slot (capacity b)"
    "length (data b) = slot (capacity b)" "capacity b \<noteq> 0"
  using assms by (auto simp: well_formed_def slot_def word_sle_eq word_sless_alt)

lemma slot_start_succ:
  assumes "well_formed b"
  shows "sint (go_rem (start b + 1) (capacity b)) = int ((slot (start b) + 1) mod slot (capacity b))"
proof -
  have lt: "sint (start b) < sint (capacity b)" using assms by (simp add: well_formed_def word_sless_alt)
  have s: "sint (start b + 1) = sint (start b) + 1" using lt by (rule sint_succ)
  have "0 \<le> sint (start b + 1)" "0 < sint (capacity b)"
    using s well_formed_nat[OF assms] by simp_all
  then have "sint (go_rem (start b + 1) (capacity b)) = sint (start b + 1) mod sint (capacity b)"
    by (rule sint_go_rem)
  also have "\<dots> = (int (slot (start b)) + 1) mod int (slot (capacity b))"
    using s well_formed_nat(1,2)[OF assms] by (simp only:)
  also have "\<dots> = int ((slot (start b) + 1) mod slot (capacity b))"
    by (simp add: zmod_int add.commute)
  finally show ?thesis .
qed

lemma Pop_wf_eq:
  assumes "well_formed b" "size b \<noteq> 0"
  shows "Pop b = (b\<lparr>data := (data b)[slot (start b) := default],
                    start := go_rem (start b + 1) (capacity b),
                    size := size b - 1, mu := mu b @ [Lock, Unlock]\<rparr>,
                  Inr (default, data b ! slot (start b), True))"
proof -
  have "in_range (data b) (start b)"
    using well_formed_nat[OF assms(1)] by (simp add: in_range_def)
  then show ?thesis
    using assms(2) well_formed_nat(8)[OF assms(1)]
    by (simp add: Pop_def Let_def mu_Lock_def mu_Unlock_def)
qed

lemma slot_of_sint: "sint x = int k \<Longrightarrow> slot x = k"
  by (simp add: slot_def)

lemma well_formedI:
  assumes "sint (capacity b) = int c" "sint (start b) = int s" "sint (size b) = int n"
    "length (data b) = c" "0 < c" "s < c" "n \<le> c"
  shows "well_formed b"
  using assms by (simp add: well_formed_def word_sle_eq word_sless_alt slot_def)

lemma Pop_wf:
  assumes "well_formed b" "size b \<noteq> 0"
  shows "well_formed (fst (Pop b))" "contents (fst (Pop b)) = tl (contents b)"
    "snd (Pop b) = Inr (default, hd (contents b), True)"
    "capacity (fst (Pop b)) = capacity b"
proof -
  define c s n where "c = slot (capacity b)" and "s = slot (start b)" and "n = slot (size b)"
  note w = well_formed_nat[OF assms(1), folded c_def s_def n_def]
  have pos: "0 < n" using assms(2) w(3) by (simp add: sint_zero_iff)
  have sz: "sint (size b - 1) = int (n - 1)"
    using sint_pred[of "size b"] w(3) pos by simp
  have st: "sint (go_rem (start b + 1) (capacity b)) = int ((s + 1) mod c)"
    using slot_start_succ[OF assms(1)] by (simp only: c_def s_def)
  let ?b = "fst (Pop b)"
  have f: "data ?b = (data b)[s := default]" "capacity ?b = capacity b"
    "start ?b = go_rem (start b + 1) (capacity b)" "size ?b = size b - 1"
    by (simp_all add: Pop_wf_eq[OF assms] s_def)
  show "well_formed ?b"
  proof (rule well_formedI)
    show "sint (capacity ?b) = int c" using w(1) f by simp
    show "sint (start ?b) = int ((s + 1) mod c)" using st f by simp
    show "sint (size ?b) = int (n - 1)" using sz f by simp
    show "length (data ?b) = c" using w(7) f by simp
    show "0 < c" by (rule w(4))
    show "(s + 1) mod c < c" using w(4) by simp
    show "n - 1 \<le> c" using w(6) by simp
  qed
  have "contents ?b = ring ((data b)[s := default]) c ((s + 1) mod c) (n - 1)"
    unfolding contents_def f using st sz w(1) by (simp only: slot_of_sint)
  also have "\<dots> = tl (ring (data b) c s n)"
    using w(7) w(5) pos w(6) by (rule ring_tl)
  finally show "contents ?b = tl (contents b)"
    by (simp only: contents_def c_def s_def n_def)
  have "hd (ring (data b) c s n) = data b ! s" using w(5) pos by (rule ring_hd)
  then show "snd (Pop b) = Inr (default, hd (contents b), True)"
    by (simp add: Pop_wf_eq[OF assms] contents_def c_def s_def n_def)
  show "capacity ?b = capacity b" by (rule f(2))
qed

lemma sint_idx_add:
  assumes "well_formed b" "sint (start b) + sint (size b) < 2^63"
  shows "sint (go_rem (start b + size b) (capacity b)) = int ((slot (start b) + slot (size b)) mod slot (capacity b))"
proof -
  note w = well_formed_nat[OF assms(1)]
  have s: "sint (start b + size b) = sint (start b) + sint (size b)"
    using assms(2) w(2,3) by (intro sint_add_no_wrap) simp_all
  have "0 \<le> sint (start b + size b)" "0 < sint (capacity b)"
    using s w by simp_all
  then have "sint (go_rem (start b + size b) (capacity b)) = sint (start b + size b) mod sint (capacity b)"
    by (rule sint_go_rem)
  also have "\<dots> = (int (slot (start b)) + int (slot (size b))) mod int (slot (capacity b))"
    using s w(1,2,3) by (simp only:)
  also have "\<dots> = int ((slot (start b) + slot (size b)) mod slot (capacity b))"
    by (simp add: zmod_int)
  finally show ?thesis .
qed

lemma Add_wf_eq:
  assumes "well_formed b" "sint (start b) + sint (size b) < 2^63"
  shows "Add b x =
    ((if size b <s capacity b
      then b\<lparr>data := (data b)[(slot (start b) + slot (size b)) mod slot (capacity b) := x],
             size := size b + 1, mu := mu b @ [Lock, Unlock]\<rparr>
      else b\<lparr>data := (data b)[(slot (start b) + slot (size b)) mod slot (capacity b) := x],
             start := go_rem (start b + 1) (capacity b), mu := mu b @ [Lock, Unlock]\<rparr>), Inr ())"
proof -
  note w = well_formed_nat[OF assms(1)]
  note i = sint_idx_add[OF assms]
  have "(slot (start b) + slot (size b)) mod slot (capacity b) < length (data b)"
    using w(4,7) by simp
  then have "in_range (data b) (go_rem (start b + size b) (capacity b))"
    by (simp add: in_range_def i)
  moreover have "slot (go_rem (start b + size b) (capacity b)) = (slot (start b) + slot (size b)) mod slot (capacity b)"
    using i by (rule slot_of_sint)
  ultimately show ?thesis
    using w(8) by (simp add: Add_def Let_def mu_Lock_def mu_Unlock_def)
qed

lemma Add_wf_nonfull:
  assumes "well_formed b" "sint (start b) + sint (size b) < 2^63" "size b \<noteq> capacity b"
  shows "well_formed (fst (Add b x))" "contents (fst (Add b x)) = contents b @ [x]"
    "snd (Add b x) = Inr ()" "capacity (fst (Add b x)) = capacity b"
    "start (fst (Add b x)) = start b" "sint (size (fst (Add b x))) = sint (size b) + 1"
proof -
  define c s n where "c = slot (capacity b)" and "s = slot (start b)" and "n = slot (size b)"
  note w = well_formed_nat[OF assms(1), folded c_def s_def n_def]
  have "sint (size b) \<noteq> sint (capacity b)" using assms(3) signed_word_eqI by blast
  then have lt: "n < c" using w by simp
  then have slt: "size b <s capacity b" using w by (simp add: word_sless_alt)
  have sz: "sint (size b + 1) = int (Suc n)"
    using sint_succ[of "size b" "capacity b"] slt w(3) by (simp add: word_sless_alt)
  let ?b = "fst (Add b x)"
  have f: "data ?b = (data b)[(s + n) mod c := x]" "capacity ?b = capacity b"
    "start ?b = start b" "size ?b = size b + 1"
    using slt by (simp_all add: Add_wf_eq[OF assms(1,2)] c_def s_def n_def)
  show "well_formed ?b"
  proof (rule well_formedI)
    show "sint (capacity ?b) = int c" using w(1) f by simp
    show "sint (start ?b) = int s" using w(2) f by simp
    show "sint (size ?b) = int (Suc n)" using sz f by simp
    show "length (data ?b) = c" using w(7) f by simp
    show "0 < c" by (rule w(4))
    show "s < c" by (rule w(5))
    show "Suc n \<le> c" using lt by simp
  qed
  have "contents ?b = ring ((data b)[(s + n) mod c := x]) c s (Suc n)"
    unfolding contents_def f using sz w(1,2) by (simp only: slot_of_sint)
  also have "\<dots> = ring (data b) c s n @ [x]"
    using w(7) lt by (rule ring_snoc)
  finally show "contents ?b = contents b @ [x]"
    by (simp only: contents_def c_def s_def n_def)
  show "snd (Add b x) = Inr ()" by (simp add: Add_wf_eq[OF assms(1,2)])
  show "capacity ?b = capacity b" by (rule f(2))
  show "start ?b = start b" by (rule f(3))
  show "sint (size ?b) = sint (size b) + 1" using sz f w(3) by simp
qed

lemma Add_wf_full:
  assumes "well_formed b" "sint (start b) + sint (size b) < 2^63" "size b = capacity b"
  shows "well_formed (fst (Add b x))" "contents (fst (Add b x)) = tl (contents b) @ [x]"
    "snd (Add b x) = Inr ()" "capacity (fst (Add b x)) = capacity b"
    "size (fst (Add b x)) = size b"
proof -
  define c s where "c = slot (capacity b)" and "s = slot (start b)"
  have n: "slot (size b) = c" using assms(3) by (simp add: c_def)
  note w = well_formed_nat[OF assms(1), unfolded n, folded c_def s_def]
  have nlt: "\<not> size b <s capacity b" using assms(3) by (simp add: word_sless_alt)
  have idx: "(s + c) mod c = s" using w(5) by simp
  have st: "sint (go_rem (start b + 1) (capacity b)) = int ((s + 1) mod c)"
    using slot_start_succ[OF assms(1)] by (simp only: c_def s_def)
  let ?b = "fst (Add b x)"
  have f: "data ?b = (data b)[s := x]" "capacity ?b = capacity b"
    "start ?b = go_rem (start b + 1) (capacity b)" "size ?b = size b"
    using nlt idx by (simp_all add: Add_wf_eq[OF assms(1,2)] n c_def[symmetric] s_def[symmetric])
  show "well_formed ?b"
  proof (rule well_formedI)
    show "sint (capacity ?b) = int c" using w(1) f by simp
    show "sint (start ?b) = int ((s + 1) mod c)" using st f by simp
    show "sint (size ?b) = int c" using w(3) f by simp
    show "length (data ?b) = c" using w(7) f by simp
    show "0 < c" by (rule w(4))
    show "(s + 1) mod c < c" using w(4) by simp
    show "c \<le> c" by simp
  qed
  have "contents ?b = ring ((data b)[s := x]) c ((s + 1) mod c) c"
    unfolding contents_def f using st w(1,3) by (simp only: slot_of_sint)
  also have "\<dots> = tl (ring (data b) c s c) @ [x]"
    using w(7) w(5) by (rule ring_rotate)
  finally show "contents ?b = tl (contents b) @ [x]"
    by (simp only: contents_def n c_def[symmetric] s_def[symmetric])
  show "snd (Add b x) = Inr ()" by (simp add: Add_wf_eq[OF assms(1,2)])
  show "capacity ?b = capacity b" by (rule f(2))
  show "size ?b = size b" by (rule f(4))
qed

lemma sint_readd_start:
  assumes "well_formed b" "sint (start b) + sint (capacity b) \<le> 2^63"
  shows "sint (go_rem (start b - 1 + capacity b) (capacity b)) = int ((slot (start b) + slot (capacity b) - 1) mod slot (capacity b))"
proof -
  note w = well_formed_nat[OF assms(1)]
  have p: "sint (start b - 1) = sint (start b) - 1"
    using w(2) by (intro sint_pred) simp
  have s: "sint (start b - 1 + capacity b) = sint (start b) - 1 + sint (capacity b)"
    using assms(2) w(1,2,4) p sint_add_no_wrap[of "start b - 1" "capacity b"] by simp
  have "0 \<le> sint (start b - 1 + capacity b)" "0 < sint (capacity b)"
    using s w by simp_all
  then have "sint (go_rem (start b - 1 + capacity b) (capacity b)) = sint (start b - 1 + capacity b) mod sint (capacity b)"
    by (rule sint_go_rem)
  also have "\<dots> = int (slot (start b) + slot (capacity b) - 1) mod int (slot (capacity b))"
  proof -
    have "int (slot (start b) + slot (capacity b) - 1) = int (slot (start b)) - 1 + int (slot (capacity b))"
      using w(4) by (simp add: of_nat_diff)
    then show ?thesis using s w(1,2) by (simp only:)
  qed
  also have "\<dots> = int ((slot (start b) + slot (capacity b) - 1) mod slot (capacity b))"
    by (simp only: zmod_int)
  finally show ?thesis .
qed

lemma Readd_wf_eq:
  assumes "well_formed b" "sint (start b) + sint (capacity b) \<le> 2^63" "size b \<noteq> capacity b"
  shows "Readd b x =
    (b\<lparr>data := (data b)[(slot (start b) + slot (capacity b) - 1) mod slot (capacity b) := x],
       start := go_rem (start b - 1 + capacity b) (capacity b),
       size := size b + 1, mu := mu b @ [Lock, Unlock]\<rparr>, Inr True)"
proof -
  note w = well_formed_nat[OF assms(1)]
  note i = sint_readd_start[OF assms(1,2)]
  have "(slot (start b) + slot (capacity b) - 1) mod slot (capacity b) < length (data b)"
    using w(4,7) by simp
  then have "in_range (data b) (go_rem (start b - 1 + capacity b) (capacity b))"
    by (simp add: in_range_def i)
  moreover have "slot (go_rem (start b - 1 + capacity b) (capacity b)) = (slot (start b) + slot (capacity b) - 1) mod slot (capacity b)"
    using i by (rule slot_of_sint)
  ultimately show ?thesis
    using w(8) assms(3) by (simp add: Readd_def Let_def mu_Lock_def mu_Unlock_def)
qed

lemma Readd_wf:
  assumes "well_formed b" "sint (start b) + sint (capacity b) \<le> 2^63" "size b \<noteq> capacity b"
  shows "well_formed (fst (Readd b x))" "contents (fst (Readd b x)) = x # contents b"
    "snd (Readd b x) = Inr True" "capacity (fst (Readd b x)) = capacity b"
    "sint (size (fst (Readd b x))) = sint (size b) + 1"
proof -
  define c s n where "c = slot (capacity b)" and "s = slot (start b)" and "n = slot (size b)"
  note w = well_formed_nat[OF assms(1), folded c_def s_def n_def]
  have "sint (size b) \<noteq> sint (capacity b)" using assms(3) signed_word_eqI by blast
  then have lt: "n < c" using w by simp
  have sz: "sint (size b + 1) = int (Suc n)"
    using sint_succ[of "size b" "capacity b"] lt w(1,3) by simp
  have st: "sint (go_rem (start b - 1 + capacity b) (capacity b)) = int ((s + c - 1) mod c)"
    using sint_readd_start[OF assms(1,2)] by (simp only: c_def s_def)
  let ?b = "fst (Readd b x)"
  have f: "data ?b = (data b)[(s + c - 1) mod c := x]" "capacity ?b = capacity b"
    "start ?b = go_rem (start b - 1 + capacity b) (capacity b)" "size ?b = size b + 1"
    by (simp_all add: Readd_wf_eq[OF assms] c_def s_def)
  show "well_formed ?b"
  proof (rule well_formedI)
    show "sint (capacity ?b) = int c" using w(1) f by simp
    show "sint (start ?b) = int ((s + c - 1) mod c)" using st f by simp
    show "sint (size ?b) = int (Suc n)" using sz f by simp
    show "length (data ?b) = c" using w(7) f by simp
    show "0 < c" by (rule w(4))
    show "(s + c - 1) mod c < c" using w(4) by simp
    show "Suc n \<le> c" using lt by simp
  qed
  have "contents ?b = ring ((data b)[(s + c - 1) mod c := x]) c ((s + c - 1) mod c) (Suc n)"
    unfolding contents_def f using st sz w(1) by (simp only: slot_of_sint)
  also have "\<dots> = x # ring (data b) c s n"
    using w(7) w(5) lt by (rule ring_cons)
  finally show "contents ?b = x # contents b"
    by (simp only: contents_def c_def s_def n_def)
  show "snd (Readd b x) = Inr True" by (simp add: Readd_wf_eq[OF assms])
  show "capacity ?b = capacity b" by (rule f(2))
  show "sint (size ?b) = sint (size b) + 1" using sz f w(3) by simp
qed

subsection \<open>The bound on the length\<close>

lemma Add_size:
  "capacity (fst (Add b x)) = capacity b \<and>
   (size (fst (Add b x)) = size b \<or> (size b <s capacity b \<and> size (fst (Add b x)) = size b + 1))"
  by (simp add: Add_def Let_def mu_Lock_def mu_Unlock_def)

lemma Pop_size:
  "capacity (fst (Pop b)) = capacity b \<and>
   (size (fst (Pop b)) = size b \<or> (size b \<noteq> 0 \<and> size (fst (Pop b)) = size b - 1))"
  by (simp add: Pop_def Let_def mu_Lock_def mu_Unlock_def)

lemma Readd_size:
  "capacity (fst (Readd b x)) = capacity b \<and>
   (size (fst (Readd b x)) = size b \<or> (size b \<noteq> capacity b \<and> size (fst (Readd b x)) = size b + 1))"
  by (simp add: Readd_def Let_def mu_Lock_def mu_Unlock_def)

lemma size_ok_succ:
  assumes "size_ok b" "size b \<noteq> capacity b"
  shows "0 \<le> sint (size b + 1) \<and> sint (size b + 1) \<le> sint (capacity b)"
proof -
  have "sint (size b) \<noteq> sint (capacity b)" using assms(2) signed_word_eqI by blast
  then have lt: "sint (size b) < sint (capacity b)"
    using assms(1) by (simp add: size_ok_def word_sle_eq)
  then have "sint (size b + 1) = sint (size b) + 1" by (rule sint_succ)
  then show ?thesis using lt assms(1) by (simp add: size_ok_def word_sle_eq)
qed

lemma size_ok_pred:
  assumes "size_ok b" "size b \<noteq> 0"
  shows "0 \<le> sint (size b - 1) \<and> sint (size b - 1) \<le> sint (capacity b)"
proof -
  have nn: "0 \<le> sint (size b)" using assms(1) by (simp add: size_ok_def word_sle_eq)
  then have e: "sint (size b - 1) = sint (size b) - 1" by (rule sint_pred)
  have "sint (size b) \<noteq> 0" using assms(2) by (simp add: sint_zero_iff)
  then show ?thesis using e nn assms(1) by (simp add: size_ok_def word_sle_eq)
qed

lemma step_size_ok:
  assumes "size_ok b"
  shows "size_ok (step b op) \<and> capacity (step b op) = capacity b"
proof (cases op)
  case (OpAdd x)
  have "size b <s capacity b \<Longrightarrow> size b \<noteq> capacity b" by (auto simp: word_sless_alt)
  then show ?thesis
    using Add_size[of b x] size_ok_succ[OF assms] assms OpAdd
    by (auto simp: size_ok_def word_sle_eq)
next
  case OpPop
  then show ?thesis
    using Pop_size[of b] size_ok_pred[OF assms] assms
    by (auto simp: size_ok_def word_sle_eq)
next
  case (OpReadd x)
  then show ?thesis
    using Readd_size[of b x] size_ok_succ[OF assms] assms
    by (auto simp: size_ok_def word_sle_eq)
qed

lemma run_size_ok:
  "size_ok b \<Longrightarrow> size_ok (run b ops) \<and> capacity (run b ops) = capacity b"
proof (induction ops arbitrary: b)
  case Nil
  then show ?case by (simp add: run_def)
next
  case (Cons op ops)
  have s: "size_ok (step b op)" "capacity (step b op) = capacity b"
    using step_size_ok[OF Cons.prems] by simp_all
  have "run b (op # ops) = run (step b op) ops" by (simp add: run_def)
  then show ?case using Cons.IH[OF s(1)] s(2) by simp
qed

text \<open>
  C1. A buffer made by \<open>NewRingBuffer c\<close> with \<open>c > 0\<close> has, after any sequence of
  \<open>Add\<close>, \<open>Pop\<close> and \<open>Readd\<close> calls, a \<open>Len()\<close> that is at least 0 and at most \<open>c\<close>.
  Every prefix of a sequence is a sequence, so the bound holds at every moment; it also
  holds after a call that panicked.
\<close>

theorem Len_bounded:
  assumes "NewRingBuffer rt c = Inr b" "0 <s c"
  shows "0 \<le> sint (snd (Len (run b ops))) \<and> sint (snd (Len (run b ops))) \<le> sint c"
proof -
  have b: "size b = 0" "capacity b = c"
    using assms(1) by (auto simp: NewRingBuffer_def make_slice_def split: if_splits)
  then have "size_ok b" using assms(2) by (simp add: size_ok_def word_sle_eq word_sless_alt)
  then have "size_ok (run b ops)" "capacity (run b ops) = c"
    using run_size_ok[of b ops] b by simp_all
  then show ?thesis by (simp add: Len_def size_ok_def word_sle_eq)
qed

theorem Len_bounded_witness:
  "NewRingBuffer int_elems 3 = Inr \<lparr>data = [0, 0, 0 :: go_int], capacity = 3, start = 0, size = 0, mu = []\<rparr>
   \<and> (0 :: go_int) <s 3
   \<and> 0 \<le> sint (snd (Len (run \<lparr>data = [0, 0, 0 :: go_int], capacity = 3, start = 0, size = 0, mu = []\<rparr>
                               [OpAdd 1, OpAdd 2, OpAdd 3, OpAdd 4, OpPop, OpReadd 2, OpAdd 5])))
   \<and> sint (snd (Len (run \<lparr>data = [0, 0, 0 :: go_int], capacity = 3, start = 0, size = 0, mu = []\<rparr>
                         [OpAdd 1, OpAdd 2, OpAdd 3, OpAdd 4, OpPop, OpReadd 2, OpAdd 5]))) \<le> sint (3 :: go_int)"
proof -
  have h1: "NewRingBuffer int_elems 3 = Inr \<lparr>data = [0, 0, 0 :: go_int], capacity = 3, start = 0, size = 0, mu = []\<rparr>"
    by (simp add: NewRingBuffer_def make_slice_def int_elems_def word_sless_alt slot_def default_word_def numeral_3_eq_3)
  have h2: "(0 :: go_int) <s 3" by (simp add: word_sless_alt)
  show ?thesis using Len_bounded[OF h1 h2] h1 h2 by blast
qed

subsection \<open>The early returns and the effect of a successful Pop\<close>

text \<open>
  C5. On a buffer with \<open>size = capacity\<close>, \<open>Readd\<close> of any value returns false and
  leaves the storage, \<open>capacity\<close>, \<open>start\<close> and \<open>size\<close>, and so \<open>Len()\<close>, as they were.
  Nothing is asked of the buffer beyond \<open>size = capacity\<close>.
\<close>

theorem Readd_full_rejected:
  assumes "size b = capacity b"
  shows "snd (Readd b v) = Inr False \<and> data (fst (Readd b v)) = data b
    \<and> capacity (fst (Readd b v)) = capacity b \<and> start (fst (Readd b v)) = start b
    \<and> size (fst (Readd b v)) = size b \<and> snd (Len (fst (Readd b v))) = snd (Len b)"
  using assms by (simp add: Readd_def Let_def mu_Lock_def mu_Unlock_def Len_def)

theorem Readd_full_rejected_witness:
  "size \<lparr>data = [4, 2, 3 :: go_int], capacity = 3, start = 1, size = 3, mu = []\<rparr>
     = capacity \<lparr>data = [4, 2, 3 :: go_int], capacity = 3, start = 1, size = 3, mu = []\<rparr>
   \<and> Readd \<lparr>data = [4, 2, 3 :: go_int], capacity = 3, start = 1, size = 3, mu = []\<rparr> 9
     = (\<lparr>data = [4, 2, 3], capacity = 3, start = 1, size = 3, mu = [Lock, Unlock]\<rparr>, Inr False)"
  using Readd_full_rejected[of "\<lparr>data = [4, 2, 3 :: go_int], capacity = 3, start = 1, size = 3, mu = []\<rparr>" 9]
  by (simp add: Readd_def Let_def mu_Lock_def mu_Unlock_def)

text \<open>
  C6. On a buffer with \<open>size = 0\<close>, \<open>Pop\<close> returns the zero value of the element type
  with the flag false and leaves the storage, \<open>capacity\<close>, \<open>start\<close> and \<open>size\<close> as they
  were.
\<close>

theorem Pop_empty:
  assumes "size b = 0"
  shows "snd (Pop b) = Inr (default, default, False) \<and> data (fst (Pop b)) = data b
    \<and> capacity (fst (Pop b)) = capacity b \<and> start (fst (Pop b)) = start b
    \<and> size (fst (Pop b)) = size b"
  using assms by (simp add: Pop_def Let_def mu_Lock_def mu_Unlock_def)

theorem Pop_empty_witness:
  "size \<lparr>data = [0, 0, 0 :: go_int], capacity = 3, start = 0, size = 0, mu = []\<rparr> = 0
   \<and> Pop \<lparr>data = [0, 0, 0 :: go_int], capacity = 3, start = 0, size = 0, mu = []\<rparr>
     = (\<lparr>data = [0, 0, 0], capacity = 3, start = 0, size = 0, mu = [Lock, Unlock]\<rparr>, Inr (0, 0, False))"
  using Pop_empty[of "\<lparr>data = [0, 0, 0 :: go_int], capacity = 3, start = 0, size = 0, mu = []\<rparr>"]
  by (simp add: Pop_def Let_def mu_Lock_def mu_Unlock_def default_word_def)

text \<open>
  After a successful \<open>Pop\<close> the slot that was read is no longer one of the live slots.
\<close>

lemma live_slots_after_Pop:
  assumes "well_formed b" "size b \<noteq> 0"
  shows "slot (start b) \<notin> set (live_slots (fst (Pop b)))"
proof
  define c s n where "c = slot (capacity b)" and "s = slot (start b)" and "n = slot (size b)"
  note w = well_formed_nat[OF assms(1), folded c_def s_def n_def]
  have pos: "0 < n" using assms(2) w(3) by (simp add: sint_zero_iff)
  have sz: "slot (size b - 1) = n - 1"
    using sint_pred[of "size b"] w(3) pos by (intro slot_of_sint) simp
  have st: "slot (go_rem (start b + 1) (capacity b)) = (s + 1) mod c"
    using slot_start_succ[OF assms(1)] unfolding c_def s_def by (rule slot_of_sint)
  assume "slot (start b) \<in> set (live_slots (fst (Pop b)))"
  then obtain i where i: "i < n - 1" "((s + 1) mod c + i) mod c = s"
    by (auto simp: live_slots_def Pop_wf_eq[OF assms] sz st c_def[symmetric] s_def[symmetric])
  have "((s + 1) mod c + i) mod c = (s + Suc i) mod c" by (simp add: mod_add_left_eq)
  then have "(s + Suc i) mod c = (s + 0) mod c" using i(2) w(5) by simp
  moreover have "Suc i < c" "0 < c" using i(1) w(6) w(4) by linarith+
  ultimately have "Suc i = 0" by (rule ring_index_inj[rotated 2])
  then show False by simp
qed

text \<open>
  C7. On a well-formed buffer with \<open>size > 0\<close>, \<open>Pop\<close> succeeds with the element at
  \<open>start\<close>; the storage afterwards is the old one with that slot set to the zero value
  and every other slot as it was; \<open>start\<close> has advanced by one modulo \<open>capacity\<close>,
  \<open>size\<close> has dropped by one, and the cleared slot lies outside the live range of the new
  state.
\<close>

theorem Pop_effect:
  assumes "well_formed b" "size b \<noteq> 0"
  shows "snd (Pop b) = Inr (default, data b ! slot (start b), True)
    \<and> data (fst (Pop b)) = (data b)[slot (start b) := default]
    \<and> data (fst (Pop b)) ! slot (start b) = default
    \<and> sint (start (fst (Pop b))) = (sint (start b) + 1) mod sint (capacity b)
    \<and> sint (size (fst (Pop b))) = sint (size b) - 1
    \<and> capacity (fst (Pop b)) = capacity b
    \<and> slot (start b) \<notin> set (live_slots (fst (Pop b)))"
proof -
  note w = well_formed_nat[OF assms(1)]
  have pos: "0 \<le> sint (size b)" using w(3) by simp
  have st: "sint (go_rem (start b + 1) (capacity b)) = (sint (start b) + 1) mod sint (capacity b)"
    using slot_start_succ[OF assms(1)] w(1,2) by (simp add: zmod_int add.commute)
  show ?thesis
    using live_slots_after_Pop[OF assms] sint_pred[OF pos] st w(5,7)
    by (simp add: Pop_wf_eq[OF assms])
qed

theorem Pop_effect_witness:
  "well_formed \<lparr>data = [4, 2, 3 :: go_int], capacity = 3, start = 1, size = 3, mu = []\<rparr>
   \<and> size \<lparr>data = [4, 2, 3 :: go_int], capacity = 3, start = 1, size = 3, mu = []\<rparr> \<noteq> 0
   \<and> Pop \<lparr>data = [4, 2, 3 :: go_int], capacity = 3, start = 1, size = 3, mu = []\<rparr>
     = (\<lparr>data = [4, 0, 3], capacity = 3, start = 2, size = 2, mu = [Lock, Unlock]\<rparr>, Inr (0, 2, True))
   \<and> 1 \<notin> set (live_slots \<lparr>data = [4, 0, 3 :: go_int], capacity = 3, start = 2, size = 2, mu = [Lock, Unlock]\<rparr>)"
proof -
  let ?b = "\<lparr>data = [4, 2, 3 :: go_int], capacity = 3, start = 1, size = 3, mu = []\<rparr>"
  have h1: "well_formed ?b"
    by (simp add: well_formed_def word_sle_eq word_sless_alt slot_def)
  have h2: "size ?b \<noteq> 0" by simp
  have e: "Pop ?b = (\<lparr>data = [4, 0, 3], capacity = 3, start = 2, size = 2, mu = [Lock, Unlock]\<rparr>, Inr (0, 2, True))"
    by (simp add: Pop_def Let_def mu_Lock_def mu_Unlock_def in_range_def slot_def go_rem_def default_word_def smod_int_alt_def)
  show ?thesis using Pop_effect[OF h1 h2] h1 h2 e by (simp add: slot_def)
qed

lemma NewRingBuffer_3:
  "NewRingBuffer int_elems 3 = Inr \<lparr>data = [0, 0, 0 :: go_int], capacity = 3, start = 0, size = 0, mu = []\<rparr>"
  by (simp add: NewRingBuffer_def make_slice_def int_elems_def word_sless_alt slot_def default_word_def numeral_3_eq_3)

subsection \<open>The mutex\<close>

text \<open>
  \<open>Add\<close>, \<open>Pop\<close> and \<open>Readd\<close> lock the mutex and unlock it on every way out. \<open>Len\<close>
  reads \<open>size\<close> and makes no call on the mutex.
\<close>

lemma methods_lock:
  "mu (fst (Add b x)) = mu b @ [Lock, Unlock]"
  "mu (fst (Pop b)) = mu b @ [Lock, Unlock]"
  "mu (fst (Readd b x)) = mu b @ [Lock, Unlock]"
  by (simp_all add: Add_def Pop_def Readd_def Let_def mu_Lock_def mu_Unlock_def)

lemma Len_no_lock: "fst (Len b) = b"
  by (simp add: Len_def)

text \<open>
  C8. The claim is that every method, \<open>Len\<close> too, takes the buffer's mutex and releases
  it on return. On the buffer \<open>NewRingBuffer 3\<close> the log of the mutex is empty after
  \<open>Len\<close>, and holds one \<open>Lock\<close> and one \<open>Unlock\<close> after each of the other methods.
\<close>

theorem Len_takes_no_lock:
  "NewRingBuffer int_elems 3 = Inr \<lparr>data = [0, 0, 0 :: go_int], capacity = 3, start = 0, size = 0, mu = []\<rparr>
   \<and> mu (fst (Len \<lparr>data = [0, 0, 0 :: go_int], capacity = 3, start = 0, size = 0, mu = []\<rparr>)) = []
   \<and> mu (fst (Add \<lparr>data = [0, 0, 0 :: go_int], capacity = 3, start = 0, size = 0, mu = []\<rparr> 1)) = [Lock, Unlock]
   \<and> mu (fst (Pop \<lparr>data = [0, 0, 0 :: go_int], capacity = 3, start = 0, size = 0, mu = []\<rparr>)) = [Lock, Unlock]
   \<and> mu (fst (Readd \<lparr>data = [0, 0, 0 :: go_int], capacity = 3, start = 0, size = 0, mu = []\<rparr> 1)) = [Lock, Unlock]"
  by (simp add: NewRingBuffer_3 methods_lock Len_def)

subsection \<open>Construction\<close>

text \<open>
  C9, as stated, fails at capacity 0: \<open>NewRingBuffer 0\<close> returns a buffer with no slots,
  and the failure comes at the first \<open>Add\<close>, which divides by zero.
\<close>

theorem NewRingBuffer_zero_counterexample:
  "NewRingBuffer int_elems 0
     = Inr \<lparr>data = [] :: go_int list, capacity = 0, start = 0, size = 0, mu = []\<rparr>
   \<and> snd (Add \<lparr>data = [] :: go_int list, capacity = 0, start = 0, size = 0, mu = []\<rparr> 1) = Inl DivideByZero"
  by (simp add: NewRingBuffer_def make_slice_def word_sless_alt slot_def Add_def Let_def
      mu_Lock_def mu_Unlock_def)

text \<open>
  C9, amended. \<open>NewRingBuffer\<close> returns a buffer with \<open>size = 0\<close>, \<open>start = 0\<close> and
  \<open>capacity\<close> slots, each holding the zero value, whenever \<open>make\<close> gives the slots: for
  a capacity that is not negative and within the two limits of the run. It fails when it
  is called in the other cases: with \<open>makeslice: len out of range\<close> for a negative
  capacity and for one beyond \<open>max_len\<close>, with \<open>out of memory\<close> for one beyond what the
  heap gives. Capacity 0 is none of these: the buffer is returned, with no slots, and the
  failure is left to the first \<open>Add\<close>, which panics on the division by zero.
\<close>

theorem NewRingBuffer_effect:
  fixes c :: go_int and x :: "'a :: default"
  shows "(0 \<le>s c \<and> sint c \<le> int (max_len rt) \<and> sint c \<le> int (heap_len rt) \<longrightarrow>
      NewRingBuffer rt c
        = Inr \<lparr>data = replicate (slot c) (default :: 'a), capacity = c, start = 0, size = 0, mu = []\<rparr>
      \<and> length (replicate (slot c) (default :: 'a)) = slot c \<and> int (slot c) = sint c)
   \<and> (c <s 0 \<or> int (max_len rt) < sint c \<longrightarrow>
        (NewRingBuffer rt c :: panic + 'a RingBuffer) = Inl MakeSliceLenOutOfRange)
   \<and> (0 \<le>s c \<and> sint c \<le> int (max_len rt) \<and> int (heap_len rt) < sint c \<longrightarrow>
        (NewRingBuffer rt c :: panic + 'a RingBuffer) = Inl OutOfMemory)
   \<and> (c = 0 \<longrightarrow>
        NewRingBuffer rt c = Inr \<lparr>data = [] :: 'a list, capacity = 0, start = 0, size = 0, mu = []\<rparr>
        \<and> snd (Add \<lparr>data = [] :: 'a list, capacity = 0, start = 0, size = 0, mu = []\<rparr> x)
            = Inl DivideByZero)"
  by (auto simp: NewRingBuffer_def make_slice_def word_sless_alt word_sle_eq slot_def Add_def Let_def
      mu_Lock_def mu_Unlock_def)

theorem NewRingBuffer_effect_witness:
  "(0 :: go_int) \<le>s 3 \<and> sint (3 :: go_int) \<le> int (max_len int_elems)
   \<and> sint (3 :: go_int) \<le> int (heap_len int_elems)
   \<and> NewRingBuffer int_elems 3
       = Inr \<lparr>data = [0, 0, 0 :: go_int], capacity = 3, start = 0, size = 0, mu = []\<rparr>
   \<and> (-1 :: go_int) <s 0
   \<and> (NewRingBuffer int_elems (-1) :: panic + go_int RingBuffer) = Inl MakeSliceLenOutOfRange
   \<and> int (max_len int_elems) < sint (70368744177664 :: go_int)
   \<and> (NewRingBuffer int_elems 70368744177664 :: panic + go_int RingBuffer) = Inl MakeSliceLenOutOfRange
   \<and> (0 :: go_int) \<le>s 4294967296 \<and> sint (4294967296 :: go_int) \<le> int (max_len int_elems)
   \<and> int (heap_len int_elems) < sint (4294967296 :: go_int)
   \<and> (NewRingBuffer int_elems 4294967296 :: panic + go_int RingBuffer) = Inl OutOfMemory
   \<and> NewRingBuffer int_elems 0
       = Inr \<lparr>data = [] :: go_int list, capacity = 0, start = 0, size = 0, mu = []\<rparr>
   \<and> snd (Add \<lparr>data = [] :: go_int list, capacity = 0, start = 0, size = 0, mu = []\<rparr> 1) = Inl DivideByZero"
proof -
  have h1: "(0 :: go_int) \<le>s 3" "sint (3 :: go_int) \<le> int (max_len int_elems)"
    "sint (3 :: go_int) \<le> int (heap_len int_elems)"
    by (simp_all add: word_sle_eq int_elems_def)
  have h2: "(-1 :: go_int) <s 0" by simp
  have h3: "int (max_len int_elems) < sint (70368744177664 :: go_int)"
    by (simp add: int_elems_def)
  have h4: "(0 :: go_int) \<le>s 4294967296" "sint (4294967296 :: go_int) \<le> int (max_len int_elems)"
    "int (heap_len int_elems) < sint (4294967296 :: go_int)"
    by (simp_all add: word_sle_eq int_elems_def)
  have r3: "replicate (slot 3) (default :: go_int) = [0, 0, 0]"
    by (simp add: slot_def default_word_def numeral_3_eq_3)
  have a: "NewRingBuffer int_elems 3
      = Inr \<lparr>data = [0, 0, 0 :: go_int], capacity = 3, start = 0, size = 0, mu = []\<rparr>"
    using NewRingBuffer_effect[of 3 int_elems "1 :: go_int"] h1 unfolding r3 by blast
  have b: "(NewRingBuffer int_elems (-1) :: panic + go_int RingBuffer) = Inl MakeSliceLenOutOfRange"
    using NewRingBuffer_effect[of "-1" int_elems "1 :: go_int"] h2 by blast
  have c: "(NewRingBuffer int_elems 70368744177664 :: panic + go_int RingBuffer) = Inl MakeSliceLenOutOfRange"
    using NewRingBuffer_effect[of 70368744177664 int_elems "1 :: go_int"] h3 by blast
  have d: "(NewRingBuffer int_elems 4294967296 :: panic + go_int RingBuffer) = Inl OutOfMemory"
    using NewRingBuffer_effect[of 4294967296 int_elems "1 :: go_int"] h4 by blast
  have e: "NewRingBuffer int_elems 0
      = Inr \<lparr>data = [] :: go_int list, capacity = 0, start = 0, size = 0, mu = []\<rparr>
      \<and> snd (Add \<lparr>data = [] :: go_int list, capacity = 0, start = 0, size = 0, mu = []\<rparr> 1) = Inl DivideByZero"
    using NewRingBuffer_effect[of 0 int_elems "1 :: go_int"] by blast
  show ?thesis using h1 h2 h3 h4 a b c d e by blast
qed

subsection \<open>First in, first out\<close>

lemma length_contents: "length (contents b) = slot (size b)"
  by (simp add: contents_def length_ring)

lemma contents_live_slots: "contents b = map (\<lambda>i. data b ! i) (live_slots b)"
  by (simp add: contents_def ring_def live_slots_def)

lemma slot_zero_iff:
  assumes "well_formed b"
  shows "size b = 0 \<longleftrightarrow> contents b = []"
proof -
  have "size b = 0 \<longleftrightarrow> int (slot (size b)) = 0"
    using well_formed_nat(3)[OF assms] by (simp only: sint_zero_iff)
  then show ?thesis using length_contents[of b] by auto
qed

lemma NewRingBuffer_fresh:
  assumes "NewRingBuffer rt c = Inr b" "0 <s c"
  shows "well_formed b" "contents b = []" "start b = 0" "size b = 0" "capacity b = c"
proof -
  have b: "b = \<lparr>data = replicate (slot c) default, capacity = c, start = 0, size = 0, mu = []\<rparr>"
    using assms(1) by (auto simp: NewRingBuffer_def make_slice_def split: if_splits)
  show "well_formed b" using assms(2)
    by (simp add: b well_formed_def word_sle_eq word_sless_alt)
  show "contents b = []" by (simp add: b contents_def ring_def slot_def)
  show "start b = 0" "size b = 0" "capacity b = c" by (simp_all add: b)
qed

lemma Add_all_nonfull:
  assumes "well_formed b" "sint (start b) + sint (capacity b) < 2^63"
    "sint (size b) + int (length xs) \<le> sint (capacity b)"
  shows "snd (Add_all b xs) = Inr () \<and> well_formed (fst (Add_all b xs))
    \<and> contents (fst (Add_all b xs)) = contents b @ xs
    \<and> start (fst (Add_all b xs)) = start b
    \<and> capacity (fst (Add_all b xs)) = capacity b"
  using assms
proof (induction xs arbitrary: b)
  case Nil
  then show ?case by simp
next
  case (Cons x xs)
  have lt: "sint (size b) < sint (capacity b)" using Cons.prems(3) by simp
  then have ne: "size b \<noteq> capacity b" by auto
  have no: "sint (start b) + sint (size b) < 2^63" using lt Cons.prems(2) by linarith
  note A = Add_wf_nonfull[OF Cons.prems(1) no ne, of x]
  let ?b = "fst (Add b x)"
  have "sint (start ?b) + sint (capacity ?b) < 2^63" using A(4,5) Cons.prems(2) by simp
  moreover have "sint (size ?b) + int (length xs) \<le> sint (capacity ?b)"
    using A(4,6) Cons.prems(3) by simp
  ultimately have IH: "snd (Add_all ?b xs) = Inr () \<and> well_formed (fst (Add_all ?b xs))
    \<and> contents (fst (Add_all ?b xs)) = contents ?b @ xs
    \<and> start (fst (Add_all ?b xs)) = start ?b
    \<and> capacity (fst (Add_all ?b xs)) = capacity ?b"
    using Cons.IH[OF A(1)] by blast
  have e: "Add_all b (x # xs) = Add_all ?b xs"
    using A(3) by (simp add: split_beta)
  show ?case unfolding e using IH A(2,4,5) by simp
qed

lemma Pop_n_contents:
  assumes "well_formed b" "n \<le> length (contents b)"
  shows "snd (Pop_n b n) = Inr (map (\<lambda>x. (x, True)) (take n (contents b)))"
  using assms
proof (induction n arbitrary: b)
  case 0
  then show ?case by simp
next
  case (Suc n)
  then have ne: "contents b \<noteq> []" by auto
  then have nz: "size b \<noteq> 0" using slot_zero_iff[OF Suc.prems(1)] by simp
  note P = Pop_wf[OF Suc.prems(1) nz]
  let ?b = "fst (Pop b)"
  have "n \<le> length (contents ?b)" using P(2) Suc.prems(2) by simp
  then have IH: "snd (Pop_n ?b n) = Inr (map (\<lambda>x. (x, True)) (take n (tl (contents b))))"
    using Suc.IH[OF P(1)] P(2) by simp
  have "snd (Pop_n b (Suc n)) = Inr ((hd (contents b), True) # map (\<lambda>x. (x, True)) (take n (tl (contents b))))"
    using P(3) IH by (simp add: split_beta split: sum.splits)
  also have "(hd (contents b), True) # map (\<lambda>x. (x, True)) (take n (tl (contents b)))
      = map (\<lambda>x. (x, True)) (take (Suc n) (contents b))"
    using ne by (cases "contents b") simp_all
  finally show ?case .
qed

text \<open>
  On the buffer that \<open>NewRingBuffer c\<close> returns, for every \<open>c > 0\<close> and every list of
  \<open>N \<le> c\<close> values, adding the values in order succeeds and \<open>N\<close> calls of \<open>Pop\<close> then
  return them in the order they were added, each with the flag true: \<open>start\<close> stays 0
  while the values are added, so no sum overflows.
\<close>

lemma FIFO_from_new:
  assumes "NewRingBuffer rt c = Inr b" "0 <s c" "int (length xs) \<le> sint c"
  shows "snd (Add_all b xs) = Inr ()
    \<and> snd (Pop_n (fst (Add_all b xs)) (length xs)) = Inr (map (\<lambda>x. (x, True)) xs)"
proof -
  note F = NewRingBuffer_fresh[OF assms(1,2)]
  have "sint (start b) + sint (capacity b) < 2^63"
    using F(3) sint_bounds64(2)[of "capacity b"] by simp
  moreover have "sint (size b) + int (length xs) \<le> sint (capacity b)"
    using F(4,5) assms(3) by simp
  ultimately have A: "snd (Add_all b xs) = Inr ()" "well_formed (fst (Add_all b xs))"
    "contents (fst (Add_all b xs)) = xs"
    using Add_all_nonfull[OF F(1), of xs] F(2) by simp_all
  show ?thesis using A(1) Pop_n_contents[OF A(2), of "length xs"] A(3) by simp
qed

text \<open>
  The same from any well-formed empty buffer, wherever \<open>start\<close> is, as long as
  \<open>start + capacity\<close> does not overflow.
\<close>

lemma FIFO_in_range:
  assumes "well_formed b" "size b = 0" "sint (start b) + sint (capacity b) < 2^63"
    "int (length xs) \<le> sint (capacity b)"
  shows "snd (Add_all b xs) = Inr ()
    \<and> snd (Pop_n (fst (Add_all b xs)) (length xs)) = Inr (map (\<lambda>x. (x, True)) xs)"
proof -
  have e: "contents b = []" using slot_zero_iff[OF assms(1)] assms(2) by simp
  have "sint (size b) + int (length xs) \<le> sint (capacity b)"
    using assms(2,4) by simp
  then have A: "snd (Add_all b xs) = Inr ()" "well_formed (fst (Add_all b xs))"
    "contents (fst (Add_all b xs)) = xs"
    using Add_all_nonfull[OF assms(1,3), of xs] e by simp_all
  show ?thesis using A(1) Pop_n_contents[OF A(2), of "length xs"] A(3) by simp
qed

subsection \<open>Overwriting the oldest element\<close>

text \<open>
  With \<open>capacity \<le> 2^62\<close> neither \<open>start + size\<close> nor \<open>start - 1 + capacity\<close> leaves the
  range of a 64-bit integer.
\<close>

lemma small_capacity_no_overflow:
  assumes "well_formed b" "sint (capacity b) \<le> 2^62"
  shows "sint (start b) + sint (size b) < 2^63" "sint (start b) + sint (capacity b) \<le> 2^63"
  using well_formed_nat[OF assms(1)] assms(2) by simp_all

lemma Add_small:
  assumes "well_formed b" "sint (capacity b) \<le> 2^62"
  shows "snd (Add b x) = Inr ()" "well_formed (fst (Add b x))"
    "capacity (fst (Add b x)) = capacity b"
    "contents (fst (Add b x)) = last_n (slot (capacity b)) (contents b @ [x])"
proof -
  note no = small_capacity_no_overflow(1)[OF assms]
  note w = well_formed_nat[OF assms(1)]
  have R: "snd (Add b x) = Inr () \<and> well_formed (fst (Add b x))
    \<and> capacity (fst (Add b x)) = capacity b
    \<and> contents (fst (Add b x)) = last_n (slot (capacity b)) (contents b @ [x])"
  proof (cases "size b = capacity b")
    case True
    note A = Add_wf_full[OF assms(1) no True, of x]
    have len: "length (contents b) = slot (capacity b)" using True by (simp add: length_contents)
    then have "contents b \<noteq> []" using w(4) by auto
    then have "last_n (slot (capacity b)) (contents b @ [x]) = tl (contents b) @ [x]"
      using len by (cases "contents b") (simp_all add: last_n_def)
    then show ?thesis using A by simp
  next
    case False
    note A = Add_wf_nonfull[OF assms(1) no False, of x]
    have "sint (size b) \<noteq> sint (capacity b)" using False signed_word_eqI by blast
    then have "slot (size b) < slot (capacity b)" using w(1,3,6) by simp
    then have "last_n (slot (capacity b)) (contents b @ [x]) = contents b @ [x]"
      by (simp add: last_n_def length_contents)
    then show ?thesis using A by simp
  qed
  show "snd (Add b x) = Inr ()" "well_formed (fst (Add b x))"
    "capacity (fst (Add b x)) = capacity b"
    "contents (fst (Add b x)) = last_n (slot (capacity b)) (contents b @ [x])"
    using R by simp_all
qed

lemma last_n_snoc:
  "last_n n (last_n n ys @ xs) = last_n n (ys @ xs)"
proof (cases "n \<le> length ys")
  case True
  then have "length ys + length xs - (length ys - n + n) + (length ys - n) = length ys + length xs - n"
    by simp
  then show ?thesis by (simp add: last_n_def)
next
  case False
  then show ?thesis by (simp add: last_n_def)
qed

lemma Add_all_small:
  assumes "well_formed b" "sint (capacity b) \<le> 2^62"
  shows "snd (Add_all b xs) = Inr () \<and> well_formed (fst (Add_all b xs))
    \<and> capacity (fst (Add_all b xs)) = capacity b
    \<and> contents (fst (Add_all b xs)) = last_n (slot (capacity b)) (contents b @ xs)"
  using assms
proof (induction xs arbitrary: b)
  case Nil
  then show ?case by (simp add: last_n_def length_contents well_formed_nat(6))
next
  case (Cons x xs)
  note A = Add_small[OF Cons.prems, of x]
  let ?b = "fst (Add b x)"
  have IH: "snd (Add_all ?b xs) = Inr () \<and> well_formed (fst (Add_all ?b xs))
    \<and> capacity (fst (Add_all ?b xs)) = capacity ?b
    \<and> contents (fst (Add_all ?b xs)) = last_n (slot (capacity ?b)) (contents ?b @ xs)"
    using Cons.IH[OF A(2)] A(3) Cons.prems(2) by simp
  have e: "Add_all b (x # xs) = Add_all ?b xs"
    using A(1) by (simp add: split_beta)
  have "last_n (slot (capacity b)) (last_n (slot (capacity b)) (contents b @ [x]) @ xs)
      = last_n (slot (capacity b)) (contents b @ x # xs)"
    using last_n_snoc[of "slot (capacity b)" "contents b @ [x]" xs] by simp
  then show ?case unfolding e using IH A(3,4) by simp
qed

lemma drain_contents:
  assumes "well_formed b"
  shows "snd (drain b) = Inr (contents b)"
  using assms
proof (induction "length (contents b)" arbitrary: b)
  case 0
  then have z: "size b = 0" using slot_zero_iff[of b] by simp
  have "snd (Pop b) = Inr (default, default, False)"
    using z by (simp add: Pop_def Let_def mu_Lock_def mu_Unlock_def)
  then have "snd (drain b) = Inr []"
    by (subst drain.simps) (simp add: split_beta split: sum.splits)
  then show ?case using 0 by simp
next
  case (Suc n)
  then have ne: "contents b \<noteq> []" by auto
  then have nz: "size b \<noteq> 0" using slot_zero_iff[OF Suc.prems] by simp
  note P = Pop_wf[OF Suc.prems nz]
  let ?b = "fst (Pop b)"
  have "n = length (contents ?b)" using P(2) Suc.hyps(2) by simp
  then have IH: "snd (drain ?b) = Inr (tl (contents b))"
    using Suc.hyps(1)[OF _ P(1)] P(2) by simp
  have "snd (drain b) = Inr (hd (contents b) # tl (contents b))"
    using P(3) IH by (subst drain.simps) (simp add: split_beta split: sum.splits)
  then show ?case using ne by simp
qed

text \<open>
  With \<open>0 < c \<le> 2^62\<close>, adding \<open>c + k\<close> values to the buffer that \<open>NewRingBuffer c\<close>
  returns succeeds, and popping until the buffer is empty then returns the last \<open>c\<close> of
  them, oldest first.
\<close>

lemma overwrite_in_range:
  assumes "NewRingBuffer rt c = Inr b" "0 <s c" "sint c \<le> 2^62"
    "length xs = slot c + k" "1 \<le> k"
  shows "snd (Add_all b xs) = Inr ()
    \<and> snd (drain (fst (Add_all b xs))) = Inr (drop k xs)
    \<and> length (drop k xs) = slot c"
proof -
  note F = NewRingBuffer_fresh[OF assms(1,2)]
  have cap: "sint (capacity b) \<le> 2^62" using F(5) assms(3) by simp
  note A = Add_all_small[OF F(1) cap, of xs]
  have "contents (fst (Add_all b xs)) = drop k xs"
    using A F(2,5) assms(4) by (simp add: last_n_def)
  then show ?thesis using A drain_contents[of "fst (Add_all b xs)"] assms(4) by simp
qed

text \<open>
  With \<open>capacity = 2^63 - 1\<close>, which \<open>make\<close> allows for elements of size zero, the sums
  wrap around.
\<close>

lemma Add_all_append:
  "Add_all b (xs @ ys) =
     (case Add_all b xs of (b', Inl p) \<Rightarrow> (b', Inl p) | (b', Inr _) \<Rightarrow> Add_all b' ys)"
  by (induction xs arbitrary: b) (auto split: prod.splits sum.splits)

lemma go_rem_max:
  "go_rem 1 9223372036854775807 = 1"
  "go_rem 9223372036854775808 9223372036854775807 = - 1"
  "go_rem (2 - 1 + 9223372036854775807) 9223372036854775807 = - 1"
  by (simp_all add: go_rem_def smod_int_alt_def)

lemma not_in_range_minus: "\<not> in_range d (- 1)" "\<not> in_range d (- 4)"
  by (simp_all add: in_range_def)

lemma Add_wraps:
  assumes "capacity b = 9223372036854775807" "start b = 1" "size b = 9223372036854775807"
  shows "snd (Add b x) = Inl IndexOutOfRange"
  by (simp add: Add_def Let_def mu_Lock_def mu_Unlock_def assms go_rem_max not_in_range_minus)

text \<open>
  On the new buffer of \<open>struct{}\<close> with capacity \<open>2^63 - 1\<close>, the first \<open>2^63 - 1\<close> calls
  of \<open>Add\<close> fill the buffer and the next one overwrites slot 0; in the one after it the
  sum \<open>start + size = 1 + (2^63 - 1)\<close> wraps to \<open>-2^63\<close>, its remainder is \<open>-1\<close>, and the
  store panics on the index.
\<close>

lemma overwrite_new_wraps:
  "NewRingBuffer zero_size_elems 9223372036854775807
     = Inr \<lparr>data = replicate (slot 9223372036854775807) (), capacity = 9223372036854775807,
            start = 0, size = 0, mu = []\<rparr>
   \<and> snd (Add_all \<lparr>data = replicate (slot 9223372036854775807) (), capacity = 9223372036854775807,
                    start = 0, size = 0, mu = []\<rparr>
              (replicate (slot 9223372036854775807 + 2) ())) = Inl IndexOutOfRange"
proof -
  let ?M = "9223372036854775807 :: go_int"
  let ?b = "\<lparr>data = replicate (slot ?M) (), capacity = ?M, start = 0, size = 0, mu = []\<rparr>"
  have N: "NewRingBuffer zero_size_elems ?M = Inr ?b"
    by (simp add: NewRingBuffer_def make_slice_def zero_size_elems_def word_sless_alt)
  have pos: "0 <s ?M" by (simp add: word_sless_alt)
  note F = NewRingBuffer_fresh[OF N pos]
  let ?xs = "replicate (slot ?M) ()"
  let ?b1 = "fst (Add_all ?b ?xs)"
  have "sint (start ?b) + sint (capacity ?b) < 2^63" by simp
  moreover have "sint (size ?b) + int (length ?xs) \<le> sint (capacity ?b)" by (simp add: slot_def)
  ultimately have A: "snd (Add_all ?b ?xs) = Inr ()" "well_formed ?b1"
    "contents ?b1 = contents ?b @ ?xs" "start ?b1 = 0" "capacity ?b1 = ?M"
    using Add_all_nonfull[OF F(1), of ?xs] by simp_all
  note w1 = well_formed_nat[OF A(2)]
  have "slot (size ?b1) = slot (capacity ?b1)"
    using A(3) F(2) length_contents[of ?b1] A(5) by simp
  then have "sint (size ?b1) = sint (capacity ?b1)" using w1(1,3) by simp
  then have full: "size ?b1 = ?M" using A(5) signed_word_eqI by metis
  have no1: "sint (start ?b1) + sint (size ?b1) < 2^63" by (simp add: A(4) full)
  let ?b2 = "fst (Add ?b1 ())"
  have b2: "snd (Add ?b1 ()) = Inr ()" "capacity ?b2 = ?M" "size ?b2 = ?M" "start ?b2 = 1"
    by (simp_all add: Add_wf_eq[OF A(2) no1] A(4,5) full go_rem_max)
  have "snd (Add ?b2 ()) = Inl IndexOutOfRange"
    using b2(2,4,3) by (rule Add_wraps)
  then have two: "snd (Add_all ?b1 [(), ()]) = Inl IndexOutOfRange"
    using b2(1) by (simp add: split_beta split: sum.splits)
  have "replicate (slot ?M + 2) () = ?xs @ replicate 2 ()"
    by (rule replicate_add)
  moreover have "replicate 2 () = [(), ()]"
    by (simp add: numeral_2_eq_2)
  ultimately have "replicate (slot ?M + 2) () = ?xs @ [(), ()]"
    by (simp only:)
  then have "snd (Add_all ?b (replicate (slot ?M + 2) ())) = Inl IndexOutOfRange"
    using A(1) two by (simp add: Add_all_append split_beta split: sum.splits)
  then show ?thesis using N by simp
qed

subsection \<open>Putting an element back\<close>

lemma well_formed_mu:
  "well_formed (b\<lparr>mu := m\<rparr>) = well_formed b"
  by (simp add: well_formed_def)

lemma Pop_empty_eq:
  "size b = 0 \<Longrightarrow> fst (Pop b) = b\<lparr>mu := mu b @ [Lock, Unlock]\<rparr>"
  by (simp add: Pop_def Let_def mu_Lock_def mu_Unlock_def)

lemma Readd_full_eq:
  "size b = capacity b \<Longrightarrow> fst (Readd b x) = b\<lparr>mu := mu b @ [Lock, Unlock]\<rparr>"
  by (simp add: Readd_def Let_def mu_Lock_def mu_Unlock_def)

lemma step_small:
  assumes "well_formed b" "sint (capacity b) \<le> 2^62"
  shows "well_formed (step b op) \<and> capacity (step b op) = capacity b"
proof (cases op)
  case (OpAdd x)
  then show ?thesis using Add_small(2,3)[OF assms, of x] by simp
next
  case OpPop
  show ?thesis
  proof (cases "size b = 0")
    case True
    then show ?thesis using OpPop assms(1) by (simp add: Pop_empty_eq well_formed_mu)
  next
    case False
    then show ?thesis using OpPop Pop_wf(1,4)[OF assms(1) False] by simp
  qed
next
  case (OpReadd x)
  show ?thesis
  proof (cases "size b = capacity b")
    case True
    then show ?thesis using OpReadd assms(1) by (simp add: Readd_full_eq well_formed_mu)
  next
    case False
    then show ?thesis
      using OpReadd Readd_wf(1,4)[OF assms(1) small_capacity_no_overflow(2)[OF assms] False, of x]
      by simp
  qed
qed

lemma run_small:
  assumes "well_formed b" "sint (capacity b) \<le> 2^62"
  shows "well_formed (run b ops) \<and> capacity (run b ops) = capacity b"
  using assms
proof (induction ops arbitrary: b)
  case Nil
  then show ?case by (simp add: run_def)
next
  case (Cons op ops)
  have s: "well_formed (step b op)" "capacity (step b op) = capacity b"
    using step_small[OF Cons.prems] by simp_all
  have "run b (op # ops) = run (step b op) ops" by (simp add: run_def)
  then show ?case using Cons.IH[OF s(1)] s(2) Cons.prems(2) by simp
qed

lemma Pop_then_Readd:
  assumes "well_formed b" "size b \<noteq> 0" "sint (capacity b) \<le> 2^62"
  shows "snd (Pop b) = Inr (default, data b ! slot (start b), True)
    \<and> snd (Readd (fst (Pop b)) (data b ! slot (start b))) = Inr True
    \<and> size (fst (Readd (fst (Pop b)) (data b ! slot (start b)))) = size b
    \<and> snd (Pop (fst (Readd (fst (Pop b)) (data b ! slot (start b)))))
        = Inr (default, data b ! slot (start b), True)"
proof -
  let ?v = "data b ! slot (start b)"
  let ?b1 = "fst (Pop b)"
  note w = well_formed_nat[OF assms(1)]
  note P = Pop_wf[OF assms(1,2)]
  have r: "snd (Pop b) = Inr (default, ?v, True)" by (simp add: Pop_wf_eq[OF assms(1,2)])
  have s1: "size ?b1 = size b - 1" by (simp add: Pop_wf_eq[OF assms(1,2)])
  have p: "sint (size b - 1) = sint (size b) - 1" using w(3) by (intro sint_pred) simp
  have "sint (size ?b1) \<noteq> sint (capacity ?b1)" using s1 p P(4) w(1,3,6) by simp
  then have nf: "size ?b1 \<noteq> capacity ?b1" by auto
  have cap1: "sint (capacity ?b1) \<le> 2^62" using P(4) assms(3) by simp
  note R = Readd_wf[OF P(1) small_capacity_no_overflow(2)[OF P(1) cap1] nf, of ?v]
  let ?b2 = "fst (Readd ?b1 ?v)"
  have "sint (size ?b2) = sint (size b)" using R(5) s1 p by simp
  then have s2: "size ?b2 = size b" by (rule signed_word_eqI)
  then have nz: "size ?b2 \<noteq> 0" using assms(2) by simp
  have "snd (Pop ?b2) = Inr (default, hd (contents ?b2), True)"
    using Pop_wf(3)[OF R(1) nz] .
  then have "snd (Pop ?b2) = Inr (default, ?v, True)" using R(2) by simp
  then show ?thesis using r R(3) s2 by simp
qed

text \<open>
  With \<open>0 < c \<le> 2^62\<close>, in every state that a sequence of calls reaches from
  \<open>NewRingBuffer c\<close> and that has \<open>size > 0\<close>: \<open>Pop\<close> succeeds with a value \<open>v\<close>, \<open>Readd v\<close>
  right after it returns true, \<open>Len()\<close> is then what it was before the \<open>Pop\<close>, and the
  next \<open>Pop\<close> succeeds with \<open>v\<close> again.
\<close>

lemma Readd_round_trip_in_range:
  assumes "NewRingBuffer rt c = Inr b0" "0 <s c" "sint c \<le> 2^62"
    "b = run b0 ops" "size b \<noteq> 0" "size b \<noteq> capacity b"
  shows "snd (Pop b) = Inr (default, data b ! slot (start b), True)
    \<and> snd (Readd (fst (Pop b)) (data b ! slot (start b))) = Inr True
    \<and> snd (Len (fst (Readd (fst (Pop b)) (data b ! slot (start b))))) = snd (Len b)
    \<and> snd (Pop (fst (Readd (fst (Pop b)) (data b ! slot (start b)))))
        = Inr (default, data b ! slot (start b), True)"
proof -
  note F = NewRingBuffer_fresh[OF assms(1,2)]
  have cap0: "sint (capacity b0) \<le> 2^62" using F(5) assms(3) by simp
  have "well_formed b" "capacity b = capacity b0"
    using run_small[OF F(1) cap0, of ops] assms(4) by simp_all
  then show ?thesis using Pop_then_Readd[of b] assms(5) cap0 by (simp add: Len_def)
qed

text \<open>
  C4. The claim is that in every reachable state that is not full and has \<open>size > 0\<close>,
  \<open>Pop\<close> and then \<open>Readd\<close> of the popped value returns true and restores the buffer. On
  the buffer of \<open>struct{}\<close> with capacity \<open>2^63 - 1\<close>, after \<open>Add\<close>, \<open>Add\<close>, \<open>Pop\<close> the state
  is not full and has \<open>size = 1\<close>. \<open>Pop\<close> succeeds and leaves \<open>start = 2\<close>. In \<open>Readd\<close> the
  sum \<open>2 - 1 + (2^63 - 1)\<close> wraps to \<open>-2^63\<close>, \<open>start\<close> becomes \<open>-1\<close>, and the store panics
  on the index, where the method's comment promises true for a buffer that is not full.
\<close>

theorem Readd_round_trip_overflow:
  "NewRingBuffer zero_size_elems 9223372036854775807
     = Inr \<lparr>data = replicate (slot 9223372036854775807) (), capacity = 9223372036854775807,
            start = 0, size = 0, mu = []\<rparr>
   \<and> size (run \<lparr>data = replicate (slot 9223372036854775807) (), capacity = 9223372036854775807,
                  start = 0, size = 0, mu = []\<rparr> [OpAdd (), OpAdd (), OpPop]) = 1
   \<and> capacity (run \<lparr>data = replicate (slot 9223372036854775807) (), capacity = 9223372036854775807,
                  start = 0, size = 0, mu = []\<rparr> [OpAdd (), OpAdd (), OpPop]) = 9223372036854775807
   \<and> snd (Pop (run \<lparr>data = replicate (slot 9223372036854775807) (), capacity = 9223372036854775807,
                  start = 0, size = 0, mu = []\<rparr> [OpAdd (), OpAdd (), OpPop])) = Inr ((), (), True)
   \<and> snd (Readd (fst (Pop (run \<lparr>data = replicate (slot 9223372036854775807) (), capacity = 9223372036854775807,
                  start = 0, size = 0, mu = []\<rparr> [OpAdd (), OpAdd (), OpPop]))) ()) = Inl IndexOutOfRange"
  by (simp add: NewRingBuffer_def make_slice_def zero_size_elems_def run_def Add_def Pop_def Readd_def Let_def mu_Lock_def mu_Unlock_def
      in_range_def slot_def go_rem_def smod_int_alt_def word_sless_alt)

text \<open>
  In every well-formed state that is not full and in which \<open>start - 1 + capacity\<close> does
  not overflow, for every value \<open>v\<close>, popped before or not: \<open>Readd v\<close> returns true,
  \<open>start\<close> becomes \<open>(start - 1) mod capacity\<close>, \<open>v\<close> is stored in that slot and nowhere
  else, \<open>size\<close> grows by one, \<open>v\<close> is the head of the queue, and the next \<open>Pop\<close> succeeds
  with \<open>v\<close>.
\<close>

lemma Readd_front_in_range:
  assumes "well_formed b" "size b \<noteq> capacity b" "sint (start b) + sint (capacity b) \<le> 2^63"
  shows "snd (Readd b v) = Inr True
    \<and> sint (start (fst (Readd b v))) = (sint (start b) - 1) mod sint (capacity b)
    \<and> data (fst (Readd b v)) = (data b)[slot (start (fst (Readd b v))) := v]
    \<and> sint (size (fst (Readd b v))) = sint (size b) + 1
    \<and> capacity (fst (Readd b v)) = capacity b
    \<and> contents (fst (Readd b v)) = v # contents b
    \<and> snd (Pop (fst (Readd b v))) = Inr (default, v, True)"
proof -
  note w = well_formed_nat[OF assms(1)]
  note R = Readd_wf[OF assms(1,3,2), of v]
  let ?b = "fst (Readd b v)"
  have st: "sint (start ?b) = int ((slot (start b) + slot (capacity b) - 1) mod slot (capacity b))"
    using sint_readd_start[OF assms(1,3)] by (simp add: Readd_wf_eq[OF assms(1,3,2)])
  have "int (slot (start b) + slot (capacity b) - 1) = sint (start b) - 1 + sint (capacity b)"
    using w(1,2,4) by (simp add: of_nat_diff)
  then have "int ((slot (start b) + slot (capacity b) - 1) mod slot (capacity b))
      = (sint (start b) - 1 + sint (capacity b)) mod sint (capacity b)"
    using w(1) by (simp only: zmod_int)
  then have st': "sint (start ?b) = (sint (start b) - 1) mod sint (capacity b)"
    using st by simp
  have d: "data ?b = (data b)[slot (start ?b) := v]"
    using slot_of_sint[OF st] by (simp add: Readd_wf_eq[OF assms(1,3,2)])
  have "sint (size ?b) \<noteq> 0" using R(5) w(3) by simp
  then have nz: "size ?b \<noteq> 0" by auto
  have "snd (Pop ?b) = Inr (default, v, True)"
    using Pop_wf(3)[OF R(1) nz] R(2) by simp
  then show ?thesis using R st' d by simp
qed

text \<open>
  C10. The claim is that \<open>Readd\<close> on any state that is not full returns true and puts
  the value at the front. On the new buffer of \<open>struct{}\<close> with capacity \<open>2^63 - 1\<close> one
  \<open>Readd\<close> gives a well-formed state with \<open>start = 2^63 - 2\<close> and \<open>size = 1\<close>. In the next
  \<open>Readd\<close> the sum \<open>start - 1 + capacity\<close> wraps to \<open>-4\<close>, \<open>start\<close> becomes \<open>-4\<close>, and the
  store panics on the index, where the method's comment promises true for a buffer that
  is not full.
\<close>

theorem Readd_front_overflow:
  "NewRingBuffer zero_size_elems 9223372036854775807
     = Inr \<lparr>data = replicate (slot 9223372036854775807) (), capacity = 9223372036854775807,
            start = 0, size = 0, mu = []\<rparr>
   \<and> well_formed (run \<lparr>data = replicate (slot 9223372036854775807) (), capacity = 9223372036854775807,
            start = 0, size = 0, mu = []\<rparr> [OpReadd ()])
   \<and> capacity (run \<lparr>data = replicate (slot 9223372036854775807) (), capacity = 9223372036854775807,
            start = 0, size = 0, mu = []\<rparr> [OpReadd ()]) = 9223372036854775807
   \<and> size (run \<lparr>data = replicate (slot 9223372036854775807) (), capacity = 9223372036854775807,
            start = 0, size = 0, mu = []\<rparr> [OpReadd ()]) = 1
   \<and> start (run \<lparr>data = replicate (slot 9223372036854775807) (), capacity = 9223372036854775807,
            start = 0, size = 0, mu = []\<rparr> [OpReadd ()]) = 9223372036854775806
   \<and> snd (Readd (run \<lparr>data = replicate (slot 9223372036854775807) (), capacity = 9223372036854775807,
            start = 0, size = 0, mu = []\<rparr> [OpReadd ()]) ()) = Inl IndexOutOfRange
   \<and> start (fst (Readd (run \<lparr>data = replicate (slot 9223372036854775807) (), capacity = 9223372036854775807,
            start = 0, size = 0, mu = []\<rparr> [OpReadd ()]) ())) = - 4"
  by (simp add: NewRingBuffer_def make_slice_def zero_size_elems_def run_def Readd_def Let_def mu_Lock_def mu_Unlock_def
      in_range_def slot_def go_rem_def smod_int_alt_def word_sless_alt word_sle_eq well_formed_def)

subsection \<open>Adding to an empty buffer whose start is high\<close>

text \<open>
  On the buffer of \<open>struct{}\<close> with capacity \<open>2^63 - 1\<close>, the calls \<open>Readd\<close>, \<open>Readd\<close>
  (which panics, see above, and is recovered from), \<open>Readd\<close>, \<open>Pop\<close>, \<open>Pop\<close> leave a
  well-formed empty buffer with \<open>start = 2^63 - 4\<close>. Four calls of \<open>Add\<close> succeed on it. In
  the fifth the sum \<open>start + size = (2^63 - 4) + 4\<close> wraps to \<open>-2^63\<close>, its remainder is
  \<open>-1\<close>, and the store panics on the index.
\<close>

lemma high_start_empty:
  "well_formed (run \<lparr>data = replicate (slot 9223372036854775807) (), capacity = 9223372036854775807,
                       start = 0, size = 0, mu = []\<rparr>
                  [OpReadd (), OpReadd (), OpReadd (), OpPop, OpPop])
   \<and> size (run \<lparr>data = replicate (slot 9223372036854775807) (), capacity = 9223372036854775807,
                   start = 0, size = 0, mu = []\<rparr>
              [OpReadd (), OpReadd (), OpReadd (), OpPop, OpPop]) = 0
   \<and> capacity (run \<lparr>data = replicate (slot 9223372036854775807) (), capacity = 9223372036854775807,
                       start = 0, size = 0, mu = []\<rparr>
                  [OpReadd (), OpReadd (), OpReadd (), OpPop, OpPop]) = 9223372036854775807
   \<and> start (run \<lparr>data = replicate (slot 9223372036854775807) (), capacity = 9223372036854775807,
                    start = 0, size = 0, mu = []\<rparr>
               [OpReadd (), OpReadd (), OpReadd (), OpPop, OpPop]) = 9223372036854775804"
  by (simp add: run_def Pop_def Readd_def Let_def mu_Lock_def mu_Unlock_def
      in_range_def slot_def go_rem_def smod_int_alt_def word_sless_alt word_sle_eq well_formed_def)

lemma high_start_five_Adds:
  "snd (Add_all (run \<lparr>data = replicate (slot 9223372036854775807) (), capacity = 9223372036854775807,
                        start = 0, size = 0, mu = []\<rparr>
                   [OpReadd (), OpReadd (), OpReadd (), OpPop, OpPop])
          [(), (), (), (), ()]) = Inl IndexOutOfRange"
  by (simp add: run_def Add_def Pop_def Readd_def Let_def mu_Lock_def mu_Unlock_def
      in_range_def slot_def go_rem_def smod_int_alt_def word_sless_alt)

text \<open>
  C2. The claim is that \<open>N \<le> c\<close> calls of \<open>Add\<close> on the empty buffer and \<open>N\<close> calls of
  \<open>Pop\<close> return the values in the order they were added. It holds on the new buffer
  (\<open>FIFO_from_new\<close>). On the empty buffer with \<open>start = 2^63 - 4\<close> and \<open>N = 5\<close> the fifth
  \<open>Add\<close> panics, where the method's comment promises that on a buffer that is not full
  the item is added at the next free position.
\<close>

theorem FIFO_overflow:
  "NewRingBuffer zero_size_elems 9223372036854775807
     = Inr \<lparr>data = replicate (slot 9223372036854775807) (), capacity = 9223372036854775807,
            start = 0, size = 0, mu = []\<rparr>
   \<and> size (run \<lparr>data = replicate (slot 9223372036854775807) (), capacity = 9223372036854775807,
                   start = 0, size = 0, mu = []\<rparr>
              [OpReadd (), OpReadd (), OpReadd (), OpPop, OpPop]) = 0
   \<and> int (length [(), (), (), (), ()]) \<le> sint (9223372036854775807 :: go_int)
   \<and> snd (Add_all (run \<lparr>data = replicate (slot 9223372036854775807) (), capacity = 9223372036854775807,
                          start = 0, size = 0, mu = []\<rparr>
                     [OpReadd (), OpReadd (), OpReadd (), OpPop, OpPop])
            [(), (), (), (), ()]) = Inl IndexOutOfRange"
proof -
  have "NewRingBuffer zero_size_elems 9223372036854775807
     = Inr \<lparr>data = replicate (slot 9223372036854775807) (), capacity = 9223372036854775807,
            start = 0, size = 0, mu = []\<rparr>"
    by (simp add: NewRingBuffer_def make_slice_def zero_size_elems_def word_sless_alt)
  moreover have "int (length [(), (), (), (), ()]) \<le> sint (9223372036854775807 :: go_int)"
    by simp
  ultimately show ?thesis using high_start_empty high_start_five_Adds by blast
qed

text \<open>
  C3. The claim is that \<open>c + k\<close> calls of \<open>Add\<close> on the empty buffer and popping until it
  is empty return the last \<open>c\<close> values. With capacity \<open>2^63 - 1\<close> and \<open>k = 1\<close> on the empty
  buffer with \<open>start = 2^63 - 4\<close> the fifth \<open>Add\<close> panics. With \<open>k = 2\<close> on the new buffer
  the last \<open>Add\<close> panics, on a full buffer, where the method's comment promises that the
  oldest item is overwritten.
\<close>

theorem overwrite_overflow:
  "NewRingBuffer zero_size_elems 9223372036854775807
     = Inr \<lparr>data = replicate (slot 9223372036854775807) (), capacity = 9223372036854775807,
            start = 0, size = 0, mu = []\<rparr>
   \<and> size (run \<lparr>data = replicate (slot 9223372036854775807) (), capacity = 9223372036854775807,
                   start = 0, size = 0, mu = []\<rparr>
              [OpReadd (), OpReadd (), OpReadd (), OpPop, OpPop]) = 0
   \<and> snd (Add_all (run \<lparr>data = replicate (slot 9223372036854775807) (), capacity = 9223372036854775807,
                          start = 0, size = 0, mu = []\<rparr>
                     [OpReadd (), OpReadd (), OpReadd (), OpPop, OpPop])
            (replicate (slot 9223372036854775807 + 1) ())) = Inl IndexOutOfRange
   \<and> snd (Add_all \<lparr>data = replicate (slot 9223372036854775807) (), capacity = 9223372036854775807,
                     start = 0, size = 0, mu = []\<rparr>
              (replicate (slot 9223372036854775807 + 2) ())) = Inl IndexOutOfRange"
proof -
  let ?e = "run \<lparr>data = replicate (slot 9223372036854775807) (), capacity = 9223372036854775807,
                  start = 0, size = 0, mu = []\<rparr>
              [OpReadd (), OpReadd (), OpReadd (), OpPop, OpPop]"
  have "slot 9223372036854775807 + 1 = 5 + 9223372036854775803"
    by (simp add: slot_def)
  then have "replicate (slot 9223372036854775807 + 1) () = replicate 5 () @ replicate 9223372036854775803 ()"
    by (simp only: replicate_add)
  moreover have "replicate 5 () = [(), (), (), (), ()]"
    by (simp add: eval_nat_numeral)
  ultimately have "replicate (slot 9223372036854775807 + 1) ()
      = [(), (), (), (), ()] @ replicate 9223372036854775803 ()"
    by (simp only:)
  then have "snd (Add_all ?e (replicate (slot 9223372036854775807 + 1) ())) = Inl IndexOutOfRange"
    using high_start_five_Adds by (simp only: Add_all_append split_beta) (simp split: sum.splits)
  then show ?thesis using overwrite_new_wraps high_start_empty by blast
qed

end
